theory Spec2Isabelle
  imports Main "HOL-Library.Log_Nat" "HOL-Library.Char_ord" "HOL-Library.List_Lexorder"
    "HOL-Library.Multiset"
begin

section \<open>Equipment usage pipeline of app\_optimized.py\<close>

text \<open>
  The transformation pipeline of \<^verbatim>\<open>src/app_optimized.py\<close>: the handpiece
  classifier, the usage normaliser, the service-life estimator
  (\<^verbatim>\<open>calculate_vida_util\<close>), the date filters, the treatment join and the three
  summaries. Data frames are lists of records, a missing cell (NaN, NaT) is \<open>None\<close>,
  Python integers are \<open>int\<close>, Python floats are the rationals that binary64 can
  represent, with every operation rounded to nearest, ties to even.
\<close>

subsection \<open>Regular expressions of the classifier\<close>

text \<open>
  \<^verbatim>\<open>re.search(r'1\d$', str(x))\<close>: somewhere in the string the character, then a
  digit, then the end of the string. In Python \<^verbatim>\<open>$\<close> also matches just before a
  newline that ends the string. Identifiers are byte strings here, so \<^verbatim>\<open>\d\<close> is an
  ASCII digit; the argument is the identifier after \<^verbatim>\<open>str\<close>.
\<close>

definition is_digit :: "char \<Rightarrow> bool" where
  "is_digit ch = (48 \<le> (of_char ch :: nat) \<and> (of_char ch :: nat) \<le> 57)"

definition newline :: char where
  "newline = CHR 0x0A"

fun search_digit_end :: "char \<Rightarrow> string \<Rightarrow> bool" where
  "search_digit_end c (a # b # rest) =
     ((a = c \<and> is_digit b \<and> (rest = [] \<or> rest = [newline])) \<or> search_digit_end c (b # rest))"
| "search_digit_end c [a] = False"
| "search_digit_end c [] = False"

definition MAIN_FUNCTION :: string where
  "MAIN_FUNCTION = ''M.F.''"

definition SECONDARY_FUNCTION :: string where
  "SECONDARY_FUNCTION = ''F.F.''"

definition UNIDENTIFIED :: string where
  "UNIDENTIFIED = ''Manguera_no_identificada''"

text \<open>The lambda of \<^verbatim>\<open>process_data\<close> that rewrites \<^verbatim>\<open>handpiece_id\<close>.\<close>

definition classify_handpiece :: "string \<Rightarrow> string" where
  "classify_handpiece x =
     (if search_digit_end (CHR ''2'') x then SECONDARY_FUNCTION
      else if search_digit_end (CHR ''1'') x then MAIN_FUNCTION
      else UNIDENTIFIED)"

text \<open>
  The two readings of "ends in": the code's (the character and a digit, a final newline
  ignored) and the three-character one of the specification (a digit, the character, a
  digit).
\<close>

definition ends_char_digit :: "char \<Rightarrow> string \<Rightarrow> bool" where
  "ends_char_digit c s =
     (case rev s of
        d # a # rest \<Rightarrow>
          (a = c \<and> is_digit d) \<or>
          (case rest of b # rest' \<Rightarrow> d = newline \<and> is_digit a \<and> b = c | [] \<Rightarrow> False)
      | _ \<Rightarrow> False)"


subsection \<open>Binary64 arithmetic\<close>

text \<open>
  A Python \<^verbatim>\<open>float\<close> and a numpy \<^verbatim>\<open>float64\<close> are IEEE binary64 numbers. A finite
  one is a rational; every operation returns the exact result rounded to the nearest
  representable number, ties to the even significand. \<open>round_half_even\<close> is the
  rounding of a rational to an integer with that tie rule (numpy's \<^verbatim>\<open>rint\<close>, and the
  rule of Python's \<^verbatim>\<open>.1f\<close> format); \<open>ilog2 x\<close> is the exponent \<open>e\<close> with
  \<open>2^e \<le> x < 2^(e+1)\<close>; \<open>round_double\<close> keeps 53 significant bits, fewer below
  \<open>2^-1022\<close> (subnormal numbers), and \<open>double_of_rat\<close> overflows to an infinity.
  The sign of a zero is not modelled: no operation of the pipeline looks at it.
\<close>

definition round_half_even :: "rat \<Rightarrow> int" where
  "round_half_even x =
     (let f = \<lfloor>x\<rfloor>; d = x - of_int f in
      if d < 1 / 2 then f else if 1 / 2 < d then f + 1 else if even f then f else f + 1)"

definition ilog2 :: "rat \<Rightarrow> int" where
  "ilog2 x =
     (if 1 \<le> x then int (floorlog 2 (nat \<lfloor>x\<rfloor>)) - 1
      else - int (floorlog 2 (nat (\<lceil>1 / x\<rceil> - 1))))"

definition round_double :: "rat \<Rightarrow> rat" where
  "round_double x =
     (if x = 0 then 0
      else let a = \<bar>x\<bar>; e = max (ilog2 a) (- 1022); q = 2 powi (e - 52)
           in sgn x * of_int (round_half_even (a / q)) * q)"

datatype double = Finite rat | PosInf | NegInf | NaN

definition double_of_rat :: "rat \<Rightarrow> double" where
  "double_of_rat x =
     (let y = round_double x in
      if 2 ^ 1024 \<le> y then PosInf else if y \<le> - (2 ^ 1024) then NegInf else Finite y)"

text \<open>Python's \<^verbatim>\<open>float(n)\<close> of an integer raises OverflowError (\<open>None\<close>) where numpy's
  conversion of an int64 cannot overflow.\<close>

definition float_of_int :: "int \<Rightarrow> double option" where
  "float_of_int n =
     (case double_of_rat (of_int n) of Finite y \<Rightarrow> Some (Finite y) | _ \<Rightarrow> None)"

text \<open>Python's \<^verbatim>\<open>a / b\<close> of two integers, \<open>b\<close> not zero: the quotient correctly
  rounded, OverflowError (\<open>None\<close>) when it is too large.\<close>

definition int_true_div :: "int \<Rightarrow> int \<Rightarrow> double option" where
  "int_true_div a b =
     (case double_of_rat (of_int a / of_int b) of Finite y \<Rightarrow> Some (Finite y) | _ \<Rightarrow> None)"

fun fneg :: "double \<Rightarrow> double" where
  "fneg (Finite a) = Finite (- a)"
| "fneg PosInf = NegInf"
| "fneg NegInf = PosInf"
| "fneg NaN = NaN"

fun fadd :: "double \<Rightarrow> double \<Rightarrow> double" where
  "fadd (Finite a) (Finite b) = double_of_rat (a + b)"
| "fadd NaN y = NaN"
| "fadd x NaN = NaN"
| "fadd PosInf NegInf = NaN"
| "fadd NegInf PosInf = NaN"
| "fadd PosInf y = PosInf"
| "fadd NegInf y = NegInf"
| "fadd x PosInf = PosInf"
| "fadd x NegInf = NegInf"

definition fsub :: "double \<Rightarrow> double \<Rightarrow> double" where
  "fsub x y = fadd x (fneg y)"

definition signed_inf :: "bool \<Rightarrow> double" where
  "signed_inf positive = (if positive then PosInf else NegInf)"

fun fmul :: "double \<Rightarrow> double \<Rightarrow> double" where
  "fmul (Finite a) (Finite b) = double_of_rat (a * b)"
| "fmul NaN y = NaN"
| "fmul x NaN = NaN"
| "fmul (Finite a) PosInf = (if a = 0 then NaN else signed_inf (0 < a))"
| "fmul (Finite a) NegInf = (if a = 0 then NaN else signed_inf (a < 0))"
| "fmul PosInf (Finite b) = (if b = 0 then NaN else signed_inf (0 < b))"
| "fmul NegInf (Finite b) = (if b = 0 then NaN else signed_inf (b < 0))"
| "fmul PosInf PosInf = PosInf"
| "fmul NegInf NegInf = PosInf"
| "fmul PosInf NegInf = NegInf"
| "fmul NegInf PosInf = NegInf"

text \<open>The IEEE division, as numpy does it: a division by zero is an infinity or NaN,
  not an exception.\<close>

fun fdiv :: "double \<Rightarrow> double \<Rightarrow> double" where
  "fdiv (Finite a) (Finite b) =
     (if b = 0 then (if a = 0 then NaN else signed_inf (0 < a)) else double_of_rat (a / b))"
| "fdiv NaN y = NaN"
| "fdiv x NaN = NaN"
| "fdiv (Finite a) PosInf = Finite 0"
| "fdiv (Finite a) NegInf = Finite 0"
| "fdiv PosInf (Finite b) = signed_inf (0 \<le> b)"
| "fdiv NegInf (Finite b) = signed_inf (b < 0)"
| "fdiv PosInf y = NaN"
| "fdiv NegInf y = NaN"

fun frint :: "double \<Rightarrow> double" where
  "frint (Finite a) = Finite (of_int (round_half_even a))"
| "frint x = x"

text \<open>\<^verbatim>\<open>x <= 0\<close>: false for NaN.\<close>

fun fle_zero :: "double \<Rightarrow> bool" where
  "fle_zero (Finite a) = (a \<le> 0)"
| "fle_zero NegInf = True"
| "fle_zero PosInf = False"
| "fle_zero NaN = False"

text \<open>numpy's \<^verbatim>\<open>round(2)\<close>: multiply by 100, \<^verbatim>\<open>rint\<close>, divide by 100.\<close>

definition np_round2 :: "double \<Rightarrow> double" where
  "np_round2 x = fdiv (frint (fmul x (Finite 100))) (Finite 100)"

subsection \<open>Formatting\<close>

definition digit_char :: "nat \<Rightarrow> char" where
  "digit_char d = char_of (48 + d)"

function show_nat :: "nat \<Rightarrow> string" where
  "show_nat n = (if n < 10 then [digit_char n] else show_nat (n div 10) @ [digit_char (n mod 10)])"
  by pat_completeness auto
termination
  by (relation "measure id") auto

text \<open>
  \<^verbatim>\<open>f"{v:.1f}"\<close>: the exact value of the float rounded to one decimal, ties to even
  (a float that prints as zero keeps its minus sign).
\<close>

definition tenths :: "rat \<Rightarrow> int" where
  "tenths y = round_half_even (\<bar>y\<bar> * 10)"

definition one_decimal :: "nat \<Rightarrow> string" where
  "one_decimal n = show_nat (n div 10) @ ''.'' @ show_nat (n mod 10)"

fun format_1f :: "double \<Rightarrow> string" where
  "format_1f (Finite y) = (if y < 0 then ''-'' else '''') @ one_decimal (nat (tenths y))"
| "format_1f PosInf = ''inf''"
| "format_1f NegInf = ''-inf''"
| "format_1f NaN = ''nan''"

subsection \<open>Usage normaliser and service-life estimator\<close>

text \<open>
  \<^verbatim>\<open>(handpiece_df['pulse_count'] / 3).round(0).astype(int)\<close> on an int64 column: the
  counter is converted to binary64, divided by 3, rounded to an integer by \<^verbatim>\<open>rint\<close>.
\<close>

definition normalize_pulse :: "int \<Rightarrow> int" where
  "normalize_pulse raw = round_half_even (round_double (round_double (of_int raw) / 3))"

record usage_row =
  pulso :: int
  rafaga :: int
  activacion :: int
  modulacion :: int

text \<open>
  \<^verbatim>\<open>calculate_vida_util\<close>. The counters of a row are Python integers. \<open>vida_util_value\<close>
  is the function up to the value that is formatted; \<open>render_vida\<close> is the formatting
  and the three fixed strings. Any exception gives \<^verbatim>\<open>'Error'\<close>.
\<close>

datatype vida = Unidentified | Zero | Percent double | Error

definition vida_util_value :: "usage_row \<Rightarrow> string \<Rightarrow> vida" where
  "vida_util_value row handpiece_id =
     (if search_digit_end (CHR ''1'') handpiece_id then
        let total = 4000000;
            used = pulso row * 20 + rafaga row * 1 + (activacion row + modulacion row);
            remaining = total - used
        in if remaining \<le> 0 then Zero
           else (case int_true_div remaining total of
                   None \<Rightarrow> Error
                 | Some q \<Rightarrow> Percent (fmul q (Finite 100)))
      else if search_digit_end (CHR ''2'') handpiece_id then
        (case (float_of_int (pulso row * 10 + rafaga row * 1),
               float_of_int (activacion row + modulacion row)) of
           (Some p, Some a) \<Rightarrow>
             let used = fadd p (fmul a (Finite (1 / 2)));
                 remaining = fsub (Finite 2000000) used
             in if fle_zero remaining then Zero
                else Percent (fmul (fdiv remaining (Finite 2000000)) (Finite 100))
         | _ \<Rightarrow> Error)
      else Unidentified)"

fun render_vida :: "vida \<Rightarrow> string" where
  "render_vida Unidentified = ''Manguera_no_identificada''"
| "render_vida Zero = ''0%''"
| "render_vida (Percent v) = format_1f v @ ''%''"
| "render_vida Error = ''Error''"

definition calculate_vida_util :: "usage_row \<Rightarrow> string \<Rightarrow> string" where
  "calculate_vida_util row handpiece_id = render_vida (vida_util_value row handpiece_id)"

text \<open>The number a result shows: nothing for the two sentinels and for a float that
  is not finite.\<close>

fun shown_percent :: "vida \<Rightarrow> rat option" where
  "shown_percent Zero = Some 0"
| "shown_percent (Percent (Finite y)) = Some (sgn y * of_int (tenths y) / 10)"
| "shown_percent v = None"

text \<open>The exact quantities of the specification.\<close>

definition consumed_main :: "usage_row \<Rightarrow> rat" where
  "consumed_main row =
     of_int (pulso row) * 20 + of_int (rafaga row) * 1
       + (of_int (activacion row) + of_int (modulacion row)) * 1"

definition consumed_secondary :: "usage_row \<Rightarrow> rat" where
  "consumed_secondary row =
     of_int (pulso row) * 10 + of_int (rafaga row) * 1
       + (of_int (activacion row) + of_int (modulacion row)) * (1 / 2)"

definition remaining_percent :: "rat \<Rightarrow> rat \<Rightarrow> rat" where
  "remaining_percent total_capacity consumed =
     (total_capacity - consumed) / total_capacity * 100"

text \<open>A counter of an int64 column that counts events.\<close>

definition counter_ok :: "int \<Rightarrow> bool" where
  "counter_ok c = (0 \<le> c \<and> c < 2 ^ 63)"

definition usage_ok :: "usage_row \<Rightarrow> bool" where
  "usage_ok row =
     (counter_ok (pulso row) \<and> counter_ok (rafaga row)
      \<and> counter_ok (activacion row) \<and> counter_ok (modulacion row))"

subsection \<open>Handpiece rows and the temporal filter\<close>

text \<open>
  An instant is a number of nanoseconds since 1970-01-01 UTC. A datetime column is
  naive or zone-aware as a whole (its dtype); the functions below receive it after
  \<^verbatim>\<open>pd.to_datetime\<close>, with \<open>None\<close> for NaT. Localising a naive column to UTC keeps
  the numbers and makes the column aware.
\<close>

record handpiece =
  hp_din :: string
  handpiece_id :: string
  serial_number :: string
  pulse_count :: int
  burst_count :: int
  activation_count :: int
  modulation_count :: int
  created_at :: "int option"

record handpiece_row =
  fecha_uso :: "int option"
  din :: string
  tipo_manipulo :: string
  numero_serie :: string
  vida_util :: string
  usage :: usage_row

record handpiece_status = handpiece_row +
  estado :: string

record cutoff =
  cutoff_aware :: bool
  cutoff_instant :: int

definition day_ns :: int where
  "day_ns = 86400 * 10 ^ 9"

text \<open>\<^verbatim>\<open>Timedelta.days\<close>: the whole days of a difference, rounded down.\<close>

definition timedelta_days :: "int \<Rightarrow> int" where
  "timedelta_days delta = delta div day_ns"

definition ACTIVO :: string where
  "ACTIVO = ''ACTIVO''"

definition INACTIVO :: string where
  "INACTIVO = ''INACTIVO''"

definition status_of :: "int \<Rightarrow> int option \<Rightarrow> string" where
  "status_of today x =
     (case x of
        Some t \<Rightarrow> if timedelta_days (today - t) < 30 then ACTIVO else INACTIVO
      | None \<Rightarrow> INACTIVO)"

definition add_status :: "int \<Rightarrow> handpiece_row \<Rightarrow> handpiece_status" where
  "add_status today r = handpiece_row.extend r (handpiece_status.fields (status_of today (fecha_uso r)))"

definition on_or_after :: "int \<Rightarrow> int option \<Rightarrow> bool" where
  "on_or_after c x = (case x of Some t \<Rightarrow> c \<le> t | None \<Rightarrow> False)"

text \<open>
  \<^verbatim>\<open>process_handpiece_dates\<close>. \<open>aware\<close> is the dtype of the \<^verbatim>\<open>fecha_uso\<close> column
  after \<^verbatim>\<open>pd.to_datetime\<close>, \<open>today\<close> the one reading of the clock. The column is
  aware after the localisation, so the comparison with a naive cutoff raises TypeError:
  the \<^verbatim>\<open>except\<close> branch, \<open>None\<close>. The sort is a stable one here; pandas promises no
  order among equal timestamps.
\<close>

definition process_handpiece_dates ::
  "bool \<Rightarrow> handpiece_row list \<Rightarrow> cutoff \<Rightarrow> int \<Rightarrow> handpiece_status list option" where
  "process_handpiece_dates aware df cutoff_date today =
     (let aware' = (if aware then aware else True) in
      if aware' \<noteq> cutoff_aware cutoff_date then None
      else Some (map (add_status today)
                  (sort_key (\<lambda>r. - the (fecha_uso r))
                    (filter (\<lambda>r. on_or_after (cutoff_instant cutoff_date) (fecha_uso r)) df))))"

text \<open>The first lines of \<^verbatim>\<open>process_data\<close>: a naive cutoff is localised to UTC.\<close>

definition localize_cutoff :: "cutoff \<Rightarrow> cutoff" where
  "localize_cutoff c = (if cutoff_aware c then c else c\<lparr>cutoff_aware := True\<rparr>)"

definition stage_handpiece :: "handpiece \<Rightarrow> handpiece_row" where
  "stage_handpiece h =
     (let u = \<lparr>pulso = normalize_pulse (pulse_count h), rafaga = burst_count h,
               activacion = activation_count h, modulacion = modulation_count h\<rparr>
      in \<lparr>fecha_uso = created_at h, din = hp_din h,
          tipo_manipulo = classify_handpiece (handpiece_id h),
          numero_serie = serial_number h,
          vida_util = calculate_vida_util u (handpiece_id h),
          usage = u\<rparr>)"

text \<open>The handpiece half of \<^verbatim>\<open>process_data\<close>.\<close>

definition process_data_handpieces ::
  "bool \<Rightarrow> handpiece list \<Rightarrow> string \<Rightarrow> cutoff \<Rightarrow> int \<Rightarrow> handpiece_status list option" where
  "process_data_handpieces aware handpiece_df d cutoff_date today =
     process_handpiece_dates aware
       (filter (\<lambda>r. din r = d) (map stage_handpiece handpiece_df))
       (localize_cutoff cutoff_date) today"

subsection \<open>Suggested cutoff date\<close>








text \<open>2023-01-01T00:00:00 UTC and 2022-06-01T00:00:00 UTC.\<close>

definition min_date :: int where
  "min_date = 19358 * day_ns"




subsection \<open>Treatment join\<close>

record treatment =
  t_din :: string
  code :: string
  reported_at :: "int option"

record treatment_id =
  Treatment_ID :: string
  id_Tipo :: "string option"
  id_Subtipo :: "string option"
  id_Subprograma :: "string option"
  id_PVP :: "int option"
  id_Secuencia :: "rat option"

record joined =
  left :: treatment
  Tipo :: "string option"
  Subtipo :: "string option"
  Subprograma :: "string option"
  PVP :: "int option"
  Secuencia :: "rat option"

definition join_unmatched :: "treatment \<Rightarrow> joined" where
  "join_unmatched t =
     \<lparr>left = t, Tipo = None, Subtipo = None, Subprograma = None, PVP = None, Secuencia = None\<rparr>"

definition join_matched :: "treatment \<Rightarrow> treatment_id \<Rightarrow> joined" where
  "join_matched t l =
     \<lparr>left = t, Tipo = id_Tipo l, Subtipo = id_Subtipo l, Subprograma = id_Subprograma l,
      PVP = id_PVP l, Secuencia = id_Secuencia l\<rparr>"

definition matches :: "treatment_id list \<Rightarrow> treatment \<Rightarrow> treatment_id list" where
  "matches treatments_id_df t = filter (\<lambda>l. Treatment_ID l = code t) treatments_id_df"

text \<open>\<^verbatim>\<open>merge(how='left', left_on='code', right_on='Treatment_ID')\<close>: the rows of the
  left frame in their order, one copy for each matching row of the lookup, and one
  with empty cells when nothing matches.\<close>

definition joined_of :: "treatment_id list \<Rightarrow> treatment \<Rightarrow> joined list" where
  "joined_of treatments_id_df t =
     (case matches treatments_id_df t of
        [] \<Rightarrow> [join_unmatched t]
      | ms \<Rightarrow> map (join_matched t) ms)"

definition merge_left :: "treatment list \<Rightarrow> treatment_id list \<Rightarrow> joined list" where
  "merge_left treatments_df treatments_id_df =
     concat (map (joined_of treatments_id_df) treatments_df)"

definition fillna :: "'a \<Rightarrow> 'a option \<Rightarrow> 'a option" where
  "fillna v x = (case x of None \<Rightarrow> Some v | Some y \<Rightarrow> Some y)"

definition FHOS :: string where
  "FHOS = ''FHOS''"

definition FHOS_generico :: string where
  "FHOS_generico = ''FHOS gen'' @ [CHR 0xC3, CHR 0xA9] @ ''rico''"

definition fill_defaults :: "joined \<Rightarrow> joined" where
  "fill_defaults r =
     r\<lparr>Tipo := fillna FHOS (Tipo r),
       Subprograma := fillna FHOS_generico (Subprograma r),
       PVP := fillna 60 (PVP r),
       Secuencia := fillna 1 (Secuencia r)\<rparr>"

text \<open>What the fill makes of a row without a lookup match.\<close>

definition default_row :: "treatment \<Rightarrow> joined" where
  "default_row t =
     \<lparr>left = t, Tipo = Some FHOS, Subtipo = None, Subprograma = Some FHOS_generico,
      PVP = Some 60, Secuencia = Some 1\<rparr>"

text \<open>
  \<^verbatim>\<open>process_treatments\<close>; \<open>aware\<close> is the dtype of \<^verbatim>\<open>reported_at\<close> after
  \<^verbatim>\<open>pd.to_datetime\<close>. \<open>None\<close> is the \<^verbatim>\<open>except\<close> branch.
\<close>

definition process_treatments ::
  "bool \<Rightarrow> treatment list \<Rightarrow> treatment_id list \<Rightarrow> string \<Rightarrow> cutoff \<Rightarrow> joined list option" where
  "process_treatments aware treatments_df treatments_id_df d cutoff_date =
     (let merged = map fill_defaults (merge_left treatments_df treatments_id_df);
          filtered = filter (\<lambda>r. t_din (left r) = d) merged;
          aware' = (if aware then aware else True)
      in if aware' \<noteq> cutoff_aware cutoff_date then None
         else Some (filter (\<lambda>r. on_or_after (cutoff_instant cutoff_date) (reported_at (left r)))
                      filtered))"

subsection \<open>Summaries\<close>

text \<open>
  The three summaries differ in the grouping column only. \<^verbatim>\<open>groupby\<close> drops the rows
  whose key is missing and orders the groups by key; \<^verbatim>\<open>count\<close> counts the cells of
  the key column, \<^verbatim>\<open>sum\<close> skips missing prices. Prices are whole numbers, so the sums
  are exact (below \<open>2^53\<close>) whether pandas holds them as int64 or float64. The sort by
  count is a stable one here; pandas promises no order among equal counts.
\<close>

record summary_row =
  label :: string
  Cantidad :: int
  PVP_sum :: int
  pct_tratamientos :: double
  pct_ingresos :: double

definition price :: "joined \<Rightarrow> int" where
  "price r = (case PVP r of Some p \<Rightarrow> p | None \<Rightarrow> 0)"

definition first_sequence :: "joined list \<Rightarrow> joined list" where
  "first_sequence df = filter (\<lambda>r. Secuencia r = Some 1) df"

definition group_keys :: "(joined \<Rightarrow> string option) \<Rightarrow> joined list \<Rightarrow> string list" where
  "group_keys key df = sort (remdups (List.map_filter key df))"

definition group_agg :: "(joined \<Rightarrow> string option) \<Rightarrow> joined list \<Rightarrow> (string \<times> int \<times> int) list" where
  "group_agg key df =
     map (\<lambda>k. let g = filter (\<lambda>r. key r = Some k) df
               in (k, int (length g), sum_list (map price g)))
       (group_keys key df)"

definition int64_to_double :: "int \<Rightarrow> double" where
  "int64_to_double n = Finite (round_double (of_int n))"

definition percent_of :: "int \<Rightarrow> int \<Rightarrow> double" where
  "percent_of part whole =
     np_round2 (fmul (fdiv (int64_to_double part) (int64_to_double whole)) (Finite 100))"

definition create_summary :: "(joined \<Rightarrow> string option) \<Rightarrow> joined list \<Rightarrow> summary_row list" where
  "create_summary key filtered_treatments_df =
     (let resumen = sort_key (\<lambda>(k, c, p). - c) (group_agg key (first_sequence filtered_treatments_df));
          total_cantidad = sum_list (map (\<lambda>(k, c, p). c) resumen);
          total_pvp = sum_list (map (\<lambda>(k, c, p). p) resumen)
      in map (\<lambda>(k, c, p).
                \<lparr>label = k, Cantidad = c, PVP_sum = p,
                 pct_tratamientos = percent_of c total_cantidad,
                 pct_ingresos = percent_of p total_pvp\<rparr>) resumen)"

definition create_treatment_summary :: "joined list \<Rightarrow> summary_row list" where
  "create_treatment_summary df = create_summary Tipo df"

definition create_program_summary :: "joined list \<Rightarrow> summary_row list" where
  "create_program_summary df = create_summary Subtipo df"

definition create_subprogram_summary :: "joined list \<Rightarrow> summary_row list" where
  "create_subprogram_summary df = create_summary Subprograma df"



subsection \<open>Auxiliary definitions\<close>

text \<open>One group of a summary before the percentages, and one row of a summary, as
  functions of their own.\<close>

definition group_row :: "(joined \<Rightarrow> string option) \<Rightarrow> joined list \<Rightarrow> string \<Rightarrow> string \<times> int \<times> int" where
  "group_row key df k =
     (k, int (length (filter (\<lambda>r. key r = Some k) df)),
      sum_list (map price (filter (\<lambda>r. key r = Some k) df)))"

definition summary_of :: "int \<Rightarrow> int \<Rightarrow> string \<times> int \<times> int \<Rightarrow> summary_row" where
  "summary_of tc tp g =
     (case g of (k, c, p) \<Rightarrow>
        \<lparr>label = k, Cantidad = c, PVP_sum = p,
         pct_tratamientos = percent_of c tc, pct_ingresos = percent_of p tp\<rparr>)"

text \<open>The spacing of the binary64 numbers around a positive rational.\<close>

definition quantum :: "rat \<Rightarrow> rat" where
  "quantum a = 2 powi (max (ilog2 a) (- 1022) - 52)"

text \<open>The two float operations that turn a share into a percentage.\<close>

definition percent_double :: "rat \<Rightarrow> rat" where
  "percent_double x = round_double (round_double x * 100)"

text \<open>The float \<^verbatim>\<open>remaining\<close> of the F.F. branch, from the two integer sums.\<close>

definition remaining_secondary :: "int \<Rightarrow> int \<Rightarrow> rat" where
  "remaining_secondary p a =
     round_double (2000000 - round_double (round_double (of_int p)
        + round_double (round_double (of_int a) * (1 / 2))))"

text \<open>The integer sums of \<^verbatim>\<open>calculate_vida_util\<close>.\<close>

definition used_main :: "usage_row \<Rightarrow> int" where
  "used_main row = pulso row * 20 + rafaga row * 1 + (activacion row + modulacion row)"

definition pulse_sum :: "usage_row \<Rightarrow> int" where
  "pulse_sum row = pulso row * 10 + rafaga row * 1"

definition activation_sum :: "usage_row \<Rightarrow> int" where
  "activation_sum row = activacion row + modulacion row"

text \<open>The number shown for a share of the capacity that remains.\<close>

definition share_shown :: "rat \<Rightarrow> rat" where
  "share_shown x = (if x \<le> 0 then 0 else of_int (tenths (percent_double x)) / 10)"



definition example_cutoff :: cutoff where
  "example_cutoff = \<lparr>cutoff_aware = False, cutoff_instant = min_date\<rparr>"


definition example_lookup :: "treatment_id list" where
  "example_lookup =
     [\<lparr>Treatment_ID = ''T1'', id_Tipo = Some ''Depilacion'', id_Subtipo = Some ''Laser'',
       id_Subprograma = Some ''Piernas'', id_PVP = Some 25, id_Secuencia = Some 1\<rparr>,
      \<lparr>Treatment_ID = ''T2'', id_Tipo = Some ''FHOS'', id_Subtipo = Some ''Facial'',
       id_Subprograma = Some ''Estimulacion'', id_PVP = Some 60, id_Secuencia = Some 2\<rparr>]"

definition example_matched :: treatment where
  "example_matched = \<lparr>t_din = ''D1'', code = ''T1'', reported_at = Some (19400 * day_ns)\<rparr>"

definition example_unmatched :: treatment where
  "example_unmatched = \<lparr>t_din = ''D1'', code = ''X9'', reported_at = Some (19401 * day_ns)\<rparr>"

definition example_second_step :: treatment where
  "example_second_step = \<lparr>t_din = ''D1'', code = ''T2'', reported_at = Some (19402 * day_ns)\<rparr>"




subsection \<open>The classifier\<close>

lemma newline_not_digit: "\<not> is_digit newline"
  by (simp add: is_digit_def newline_def)

lemma search_digit_end_suffix:
  "search_digit_end c s \<longleftrightarrow>
     (\<exists>p d. is_digit d \<and> (s = p @ [c, d] \<or> s = p @ [c, d, newline]))"
proof (induction c s rule: search_digit_end.induct)
  case (1 c a b rest)
  show ?case
  proof
    assume "search_digit_end c (a # b # rest)"
    then consider "a = c \<and> is_digit b \<and> (rest = [] \<or> rest = [newline])"
      | "search_digit_end c (b # rest)" by auto
    then show "\<exists>p d. is_digit d \<and> (a # b # rest = p @ [c, d] \<or> a # b # rest = p @ [c, d, newline])"
    proof cases
      case 1
      then have "a # b # rest = [] @ [c, b] \<or> a # b # rest = [] @ [c, b, newline]" by auto
      with 1 show ?thesis by blast
    next
      case 2
      with "1.IH" obtain p d where d: "is_digit d"
        and "b # rest = p @ [c, d] \<or> b # rest = p @ [c, d, newline]" by blast
      then have "a # b # rest = (a # p) @ [c, d] \<or> a # b # rest = (a # p) @ [c, d, newline]"
        by auto
      with d show ?thesis by blast
    qed
  next
    assume "\<exists>p d. is_digit d \<and> (a # b # rest = p @ [c, d] \<or> a # b # rest = p @ [c, d, newline])"
    then obtain p d where d: "is_digit d"
      and s: "a # b # rest = p @ [c, d] \<or> a # b # rest = p @ [c, d, newline]" by blast
    show "search_digit_end c (a # b # rest)"
    proof (cases p)
      case Nil
      with s d show ?thesis by auto
    next
      case (Cons x p')
      with s have "b # rest = p' @ [c, d] \<or> b # rest = p' @ [c, d, newline]" by auto
      with d "1.IH" have "search_digit_end c (b # rest)" by blast
      then show ?thesis by simp
    qed
  qed
next
  case (2 c a)
  show ?case by (auto simp: Cons_eq_append_conv)
next
  case (3 c)
  show ?case by simp
qed

lemma ends_char_digit_suffix:
  "ends_char_digit c s \<longleftrightarrow>
     (\<exists>p d. is_digit d \<and> (s = p @ [c, d] \<or> s = p @ [c, d, newline]))"
proof
  assume "ends_char_digit c s"
  then show "\<exists>p d. is_digit d \<and> (s = p @ [c, d] \<or> s = p @ [c, d, newline])"
  proof (cases "rev s")
    case Nil
    with \<open>ends_char_digit c s\<close> show ?thesis by (simp add: ends_char_digit_def)
  next
    case (Cons d r1)
    note r0 = this
    show ?thesis
    proof (cases r1)
      case Nil
      with r0 \<open>ends_char_digit c s\<close> show ?thesis by (simp add: ends_char_digit_def)
    next
      case (Cons a rest)
      with r0 have rs: "rev s = d # a # rest" by simp
      from \<open>ends_char_digit c s\<close> rs consider "a = c \<and> is_digit d"
        | b rest' where "rest = b # rest'" "d = newline" "is_digit a" "b = c"
        by (auto simp: ends_char_digit_def split: list.splits)
      then show ?thesis
      proof cases
        case 1
        from rs have "s = rev rest @ [a, d]" by (simp add: rev_swap)
        with 1 show ?thesis by blast
      next
        case 2
        with rs have "s = rev rest' @ [c, a, newline]" by (simp add: rev_swap)
        with 2 show ?thesis by blast
      qed
    qed
  qed
next
  assume "\<exists>p d. is_digit d \<and> (s = p @ [c, d] \<or> s = p @ [c, d, newline])"
  then obtain p d where "is_digit d" "s = p @ [c, d] \<or> s = p @ [c, d, newline]" by blast
  then show "ends_char_digit c s"
    by (auto simp: ends_char_digit_def newline_not_digit split: list.splits)
qed

lemma search_digit_end_eq: "search_digit_end c s = ends_char_digit c s"
  by (simp add: search_digit_end_suffix ends_char_digit_suffix)


lemma ends_char_digit_unique:
  "ends_char_digit c s \<Longrightarrow> ends_char_digit c' s \<Longrightarrow> c = c'"
  by (auto simp: ends_char_digit_def newline_not_digit split: list.splits)




subsection \<open>Rounding to an integer\<close>

lemma round_half_even_error: "\<bar>of_int (round_half_even x) - x\<bar> \<le> 1 / 2"
proof -
  have "of_int \<lfloor>x\<rfloor> \<le> x" "x < of_int \<lfloor>x\<rfloor> + 1" by linarith+
  then show ?thesis by (auto simp: round_half_even_def Let_def)
qed

lemma round_half_even_of_int [simp]: "round_half_even (of_int n) = n"
  by (simp add: round_half_even_def)

lemma round_half_even_floor:
  "\<lfloor>x\<rfloor> \<le> round_half_even x \<and> round_half_even x \<le> \<lfloor>x\<rfloor> + 1"
  by (simp add: round_half_even_def Let_def)

lemma round_half_even_mono:
  assumes "x \<le> y"
  shows "round_half_even x \<le> round_half_even y"
proof (cases "\<lfloor>x\<rfloor> = \<lfloor>y\<rfloor>")
  case True
  from assms have "x - of_int \<lfloor>x\<rfloor> \<le> y - of_int \<lfloor>x\<rfloor>" by simp
  with True show ?thesis by (auto simp: round_half_even_def Let_def)
next
  case False
  from assms have "\<lfloor>x\<rfloor> \<le> \<lfloor>y\<rfloor>" by (rule floor_mono)
  with False have "\<lfloor>x\<rfloor> + 1 \<le> \<lfloor>y\<rfloor>" by simp
  with round_half_even_floor [of x] round_half_even_floor [of y] show ?thesis by linarith
qed

lemma round_half_even_zero [simp]: "round_half_even 0 = 0"
  by (simp add: round_half_even_def)

lemma round_half_even_nonneg: "0 \<le> x \<Longrightarrow> 0 \<le> round_half_even x"
  using round_half_even_mono [of 0 x] by simp

subsection \<open>The binary exponent\<close>

lemma floorlog_pos: "0 < n \<Longrightarrow> 0 < floorlog 2 n"
proof (rule ccontr)
  assume n: "0 < n" and "\<not> 0 < floorlog 2 n"
  then have "floorlog 2 n = 0" by simp
  then have "(2::nat) \<le> 1 \<or> n \<le> 0" by (simp only: floorlog_eq_zero_iff)
  with n show False by simp
qed

lemma ilog2_bounds:
  assumes "0 < x"
  shows "2 powi (ilog2 x) \<le> x \<and> x < 2 powi (ilog2 x + 1)"
proof (cases "1 \<le> x")
  case True
  define n where "n = nat \<lfloor>x\<rfloor>"
  define k where "k = floorlog 2 n"
  from True have n: "0 < n" by (simp add: n_def)
  from floorlog_bounds [OF n, of 2] have b: "2 ^ (k - 1) \<le> n" "n < 2 ^ k"
    by (simp_all add: k_def)
  from n have k: "0 < k" unfolding k_def by (rule floorlog_pos)
  have e: "ilog2 x = int k - 1" using True by (simp add: ilog2_def n_def k_def)
  have nx: "rat_of_nat n \<le> x" "x < rat_of_nat n + 1"
    using True by (simp_all add: n_def) linarith+
  from k have p1: "(2::rat) powi (int k - 1) = 2 ^ (k - 1)"
    by (simp add: power_int_def nat_diff_distrib')
  have p2: "(2::rat) powi (int k - 1 + 1) = 2 ^ k" by simp
  from b(1) have "(2::rat) ^ (k - 1) \<le> rat_of_nat n"
    by (metis of_nat_le_iff of_nat_numeral of_nat_power)
  with nx(1) have lo: "(2::rat) ^ (k - 1) \<le> x" by (rule order_trans [rotated])
  from b(2) have "n + 1 \<le> 2 ^ k" by simp
  then have "rat_of_nat (n + 1) \<le> 2 ^ k"
    by (metis of_nat_le_iff of_nat_numeral of_nat_power)
  then have "rat_of_nat n + 1 \<le> 2 ^ k" by (simp only: of_nat_add of_nat_1)
  with nx(2) have hi: "x < 2 ^ k" by (rule less_le_trans)
  from lo hi show ?thesis unfolding e p1 p2 by blast
next
  case False
  with assms have x1: "x < 1" by simp
  define y where "y = 1 / x"
  define c where "c = \<lceil>y\<rceil>"
  define n where "n = nat (c - 1)"
  define k where "k = floorlog 2 n"
  from assms x1 have y1: "1 < y" by (simp add: y_def)
  then have c2: "2 \<le> c" unfolding c_def by linarith
  then have n: "0 < n" by (simp add: n_def)
  from floorlog_bounds [OF n, of 2] have b: "2 ^ (k - 1) \<le> n" "n < 2 ^ k"
    by (simp_all add: k_def)
  from n have k: "0 < k" unfolding k_def by (rule floorlog_pos)
  have e: "ilog2 x = - int k" using False by (simp add: ilog2_def n_def k_def c_def y_def)
  have cy: "of_int c - 1 < y" "y \<le> of_int c" unfolding c_def by linarith+
  have nc: "rat_of_nat n = of_int c - 1" using c2 by (simp add: n_def)
  from b(1) have "(2::rat) ^ (k - 1) \<le> rat_of_nat n"
    by (metis of_nat_le_iff of_nat_numeral of_nat_power)
  with cy(1) nc have lo: "(2::rat) ^ (k - 1) < y" by linarith
  from b(2) have "n + 1 \<le> 2 ^ k" by simp
  then have "rat_of_nat (n + 1) \<le> 2 ^ k"
    by (metis of_nat_le_iff of_nat_numeral of_nat_power)
  then have "rat_of_nat n + 1 \<le> 2 ^ k" by (simp only: of_nat_add of_nat_1)
  with cy(2) nc have hi: "y \<le> 2 ^ k" by linarith
  have p1: "(2::rat) powi (- int k) = 1 / 2 ^ k"
    by (simp add: power_int_minus field_simps)
  from k have p2: "(2::rat) powi (- int k + 1) = 1 / 2 ^ (k - 1)"
    by (simp add: power_int_def nat_diff_distrib' field_simps)
  from hi assms have a: "1 / 2 ^ k \<le> x"
    by (simp add: y_def field_simps)
  from lo assms have b': "x < 1 / 2 ^ (k - 1)"
    by (simp add: y_def field_simps)
  from a b' show ?thesis unfolding e p1 p2 by blast
qed

lemma ilog2_unique:
  assumes "2 powi e \<le> x" and "x < 2 powi (e + 1)"
  shows "ilog2 x = e"
proof -
  have "0 < (2::rat) powi e" by simp
  with assms(1) have pos: "0 < x" by linarith
  from ilog2_bounds [OF pos] have b: "2 powi (ilog2 x) \<le> x" "x < 2 powi (ilog2 x + 1)"
    by simp_all
  have "ilog2 x < e + 1"
  proof (rule ccontr)
    assume "\<not> ilog2 x < e + 1"
    then have "e + 1 \<le> ilog2 x" by simp
    then have "(2::rat) powi (e + 1) \<le> 2 powi (ilog2 x)" by (rule power_int_increasing) simp
    with b(1) assms(2) show False by simp
  qed
  moreover have "e < ilog2 x + 1"
  proof (rule ccontr)
    assume "\<not> e < ilog2 x + 1"
    then have "ilog2 x + 1 \<le> e" by simp
    then have "(2::rat) powi (ilog2 x + 1) \<le> 2 powi e" by (rule power_int_increasing) simp
    with b(2) assms(1) show False by simp
  qed
  ultimately show ?thesis by simp
qed

lemma ilog2_mono:
  assumes "0 < x" and "x \<le> y"
  shows "ilog2 x \<le> ilog2 y"
proof (rule ccontr)
  assume "\<not> ilog2 x \<le> ilog2 y"
  then have "ilog2 y + 1 \<le> ilog2 x" by simp
  then have "(2::rat) powi (ilog2 y + 1) \<le> 2 powi (ilog2 x)" by (rule power_int_increasing) simp
  moreover from assms have "0 < y" by simp
  ultimately show False
    using ilog2_bounds [OF assms(1)] ilog2_bounds [OF \<open>0 < y\<close>] assms(2) by simp
qed

subsection \<open>Rounding to binary64\<close>

lemma quantum_pos [simp]: "0 < quantum a"
  by (simp add: quantum_def)

lemma quantum_nz [simp]: "quantum a \<noteq> 0"
  using quantum_pos [of a] by linarith

lemma quantum_nonneg [simp]: "0 \<le> quantum a"
  using quantum_pos [of a] by linarith

lemma pow2_split: "(2::rat) powi (a + b) = 2 powi a * 2 powi b"
  by (rule power_int_add) simp

lemma pow2_shift: "(2::rat) powi (e + int k) = 2 ^ k * 2 powi e"
  by (simp only: pow2_split power_int_of_nat mult.commute)

lemma pow2_shift_53: "(2::rat) powi (e + 1) = 2 ^ 53 * 2 powi (e - 52)"
proof -
  have "e + 1 = (e - 52) + int 53" by simp
  then have "(2::rat) powi (e + 1) = 2 powi ((e - 52) + int 53)" by (rule arg_cong)
  then show ?thesis by (simp only: pow2_shift)
qed

lemma pow2_shift_52: "(2::rat) powi e = 2 ^ 52 * 2 powi (e - 52)"
proof -
  have "e = (e - 52) + int 52" by simp
  then have "(2::rat) powi e = 2 powi ((e - 52) + int 52)" by (rule arg_cong)
  then show ?thesis by (simp only: pow2_shift)
qed

lemma round_double_zero [simp]: "round_double 0 = 0"
  by (simp add: round_double_def)

lemma round_double_pos:
  "0 < x \<Longrightarrow> round_double x = of_int (round_half_even (x / quantum x)) * quantum x"
  by (simp add: round_double_def quantum_def Let_def)

lemma round_double_minus: "round_double (- x) = - round_double x"
  by (simp add: round_double_def Let_def)

lemma round_double_neg:
  "x < 0 \<Longrightarrow> round_double x = - (of_int (round_half_even (- x / quantum (- x))) * quantum (- x))"
  using round_double_pos [of "- x"] round_double_minus [of x] by simp

lemma round_double_nonneg: "0 \<le> x \<Longrightarrow> 0 \<le> round_double x"
proof (cases "x = 0")
  case True
  then show ?thesis by simp
next
  case False
  assume "0 \<le> x"
  with False have x: "0 < x" by simp
  then have "0 \<le> x / quantum x" by (simp add: zero_le_divide_iff)
  then have "0 \<le> round_half_even (x / quantum x)" by (rule round_half_even_nonneg)
  with x show ?thesis by (simp add: round_double_pos)
qed

lemma round_double_nonpos: "x \<le> 0 \<Longrightarrow> round_double x \<le> 0"
  using round_double_nonneg [of "- x"] by (simp add: round_double_minus)

lemma scaled_below_2_53:
  assumes "0 < x"
  shows "x / quantum x < 2 ^ 53"
proof -
  define E where "E = max (ilog2 x) (- 1022)"
  have "x < 2 powi (ilog2 x + 1)" using ilog2_bounds [OF assms] by simp
  also have "(2::rat) powi (ilog2 x + 1) \<le> 2 powi (E + 1)"
    by (rule power_int_increasing) (simp_all add: E_def)
  also have "(2::rat) powi (E + 1) = 2 ^ 53 * 2 powi (E - 52)"
    by (rule pow2_shift_53)
  finally have "x < 2 ^ 53 * quantum x" by (simp only: quantum_def E_def)
  then show ?thesis by (simp add: field_simps)
qed

lemma scaled_above_2_52:
  assumes "2 powi (- 1022) \<le> x"
  shows "2 ^ 52 \<le> x / quantum x" and "quantum x = 2 powi (ilog2 x - 52)"
proof -
  have "0 < (2::rat) powi (- 1022)" by (rule zero_less_power_int) simp
  with assms have pos: "0 < x" by linarith
  have "- 1022 \<le> ilog2 x"
  proof (rule ccontr)
    assume "\<not> - 1022 \<le> ilog2 x"
    then have "ilog2 x + 1 \<le> - 1022" by simp
    then have "(2::rat) powi (ilog2 x + 1) \<le> 2 powi (- 1022)" by (rule power_int_increasing) simp
    with ilog2_bounds [OF pos] assms show False by simp
  qed
  then show q: "quantum x = 2 powi (ilog2 x - 52)" by (simp add: quantum_def max_def)
  have "(2::rat) powi (ilog2 x) = 2 ^ 52 * 2 powi (ilog2 x - 52)"
    by (rule pow2_shift_52)
  with ilog2_bounds [OF pos] have "2 ^ 52 * quantum x \<le> x" by (simp only: q)
  then show "2 ^ 52 \<le> x / quantum x" by (simp add: field_simps)
qed

lemma round_double_error_abs:
  assumes "0 < x"
  shows "\<bar>round_double x - x\<bar> \<le> quantum x / 2"
proof -
  have "round_double x - x = (of_int (round_half_even (x / quantum x)) - x / quantum x) * quantum x"
    using assms by (simp add: round_double_pos left_diff_distrib)
  then have "\<bar>round_double x - x\<bar>
      = \<bar>of_int (round_half_even (x / quantum x)) - x / quantum x\<bar> * quantum x"
    by (simp only: abs_mult) simp
  also have "\<dots> \<le> 1 / 2 * quantum x"
    by (rule mult_right_mono [OF round_half_even_error]) simp
  finally show ?thesis by simp
qed

text \<open>The relative error of a rounding in the normal range is at most \<open>2^-53\<close>.\<close>

lemma round_double_error_pos:
  assumes "2 powi (- 1022) \<le> x"
  shows "\<bar>round_double x - x\<bar> \<le> x / 2 ^ 53"
proof -
  have "0 < (2::rat) powi (- 1022)" by (rule zero_less_power_int) simp
  with assms have pos: "0 < x" by linarith
  from scaled_above_2_52 (1) [OF assms] have "quantum x * 2 ^ 52 \<le> x"
    by (simp add: field_simps)
  then have "quantum x / 2 \<le> x / 2 ^ 53" by simp
  with round_double_error_abs [OF pos] show ?thesis by linarith
qed

lemma round_double_error:
  assumes "2 powi (- 1022) \<le> \<bar>x\<bar>"
  shows "\<bar>round_double x - x\<bar> \<le> \<bar>x\<bar> / 2 ^ 53"
proof (cases "0 \<le> x")
  case True
  with assms round_double_error_pos [of x] show ?thesis by simp
next
  case False
  with assms have "2 powi (- 1022) \<le> - x" by simp
  from round_double_error_pos [OF this] have "\<bar>- round_double x + x\<bar> \<le> - x / 2 ^ 53"
    by (simp add: round_double_minus)
  moreover have "\<bar>- round_double x + x\<bar> = \<bar>round_double x - x\<bar>" by linarith
  ultimately show ?thesis using False by simp
qed

lemma round_double_upper:
  assumes "0 < x"
  shows "round_double x \<le> 2 ^ 53 * quantum x"
proof -
  from scaled_below_2_53 [OF assms] have "x / quantum x \<le> of_int (2 ^ 53)" by simp
  then have "round_half_even (x / quantum x) \<le> round_half_even (of_int (2 ^ 53))"
    by (rule round_half_even_mono)
  then have "round_half_even (x / quantum x) \<le> 2 ^ 53" by (simp only: round_half_even_of_int)
  then have "rat_of_int (round_half_even (x / quantum x)) \<le> rat_of_int (2 ^ 53)"
    by (simp only: of_int_le_iff)
  then have "rat_of_int (round_half_even (x / quantum x)) * quantum x \<le> 2 ^ 53 * quantum x"
    by (simp add: mult_right_mono)
  with assms show ?thesis by (simp only: round_double_pos)
qed

lemma round_double_lower:
  assumes "2 powi (- 1022) \<le> x"
  shows "2 ^ 52 * quantum x \<le> round_double x"
proof -
  have "0 < (2::rat) powi (- 1022)" by (rule zero_less_power_int) simp
  with assms have pos: "0 < x" by linarith
  from scaled_above_2_52 (1) [OF assms] have "of_int (2 ^ 52) \<le> x / quantum x" by simp
  then have "round_half_even (of_int (2 ^ 52)) \<le> round_half_even (x / quantum x)"
    by (rule round_half_even_mono)
  then have "2 ^ 52 \<le> round_half_even (x / quantum x)" by (simp only: round_half_even_of_int)
  then have "rat_of_int (2 ^ 52) \<le> rat_of_int (round_half_even (x / quantum x))"
    by (simp only: of_int_le_iff)
  then have "2 ^ 52 * quantum x \<le> rat_of_int (round_half_even (x / quantum x)) * quantum x"
    by (simp add: mult_right_mono)
  with pos show ?thesis by (simp only: round_double_pos)
qed

lemma round_double_mono_pos:
  assumes "0 < x" and "x \<le> y"
  shows "round_double x \<le> round_double y"
proof -
  from assms have ypos: "0 < y" by simp
  define Ex where "Ex = max (ilog2 x) (- 1022)"
  define Ey where "Ey = max (ilog2 y) (- 1022)"
  have le: "Ex \<le> Ey" using ilog2_mono [OF assms] by (simp add: Ex_def Ey_def)
  show ?thesis
  proof (cases "Ex = Ey")
    case True
    then have q: "quantum x = quantum y" by (simp add: quantum_def Ex_def Ey_def)
    from assms(2) have "x / quantum y \<le> y / quantum y" by (simp add: divide_right_mono)
    then have "round_half_even (x / quantum y) \<le> round_half_even (y / quantum y)"
      by (rule round_half_even_mono)
    then have "rat_of_int (round_half_even (x / quantum y)) * quantum y
        \<le> rat_of_int (round_half_even (y / quantum y)) * quantum y"
      by (simp add: mult_right_mono)
    with assms(1) ypos show ?thesis by (simp add: round_double_pos q)
  next
    case False
    with le have lt: "Ex + 1 \<le> Ey" by simp
    then have "- 1022 < Ey" by (simp add: Ex_def)
    then have ey: "Ey = ilog2 y" by (simp add: Ey_def max_def split: if_splits)
    have "(2::rat) powi (- 1022) \<le> 2 powi Ey"
      by (rule power_int_increasing) (use \<open>- 1022 < Ey\<close> in simp_all)
    also have "\<dots> \<le> y" using ilog2_bounds [OF ypos] by (simp add: ey)
    finally have ynorm: "2 powi (- 1022) \<le> y" .
    have "round_double x \<le> 2 ^ 53 * quantum x" by (rule round_double_upper [OF assms(1)])
    also have "\<dots> = 2 powi (Ex + 1)"
      by (simp only: quantum_def Ex_def pow2_shift_53 [symmetric])
    also have "\<dots> \<le> 2 powi Ey" by (rule power_int_increasing) (use lt in simp_all)
    also have "\<dots> = 2 ^ 52 * quantum y"
      by (simp only: scaled_above_2_52 (2) [OF ynorm] ey pow2_shift_52 [symmetric])
    also have "\<dots> \<le> round_double y" by (rule round_double_lower [OF ynorm])
    finally show ?thesis .
  qed
qed

lemma round_double_mono:
  assumes "x \<le> y"
  shows "round_double x \<le> round_double y"
proof -
  consider "0 < x" | "x \<le> 0" "0 \<le> y" | "y < 0" by linarith
  then show ?thesis
  proof cases
    case 1
    then show ?thesis using assms by (rule round_double_mono_pos)
  next
    case 2
    then show ?thesis using round_double_nonpos [of x] round_double_nonneg [of y] by linarith
  next
    case 3
    with assms have "0 < - y" "- y \<le> - x" by simp_all
    then have "round_double (- y) \<le> round_double (- x)" by (rule round_double_mono_pos)
    then show ?thesis by (simp add: round_double_minus)
  qed
qed

text \<open>A rational \<open>m * 2^j\<close> with \<open>|m| < 2^53\<close> and \<open>j \<ge> -1074\<close> is a binary64 number:
  rounding leaves it alone.\<close>

lemma round_double_exact_pos:
  assumes m: "0 < m" "m < 2 ^ 53" and j: "- 1074 \<le> j"
  shows "round_double (of_int m * 2 powi j) = of_int m * 2 powi j"
proof -
  define x :: rat where "x = of_int m * 2 powi j"
  define E where "E = max (ilog2 x) (- 1022)"
  from m(1) have pos: "0 < x" by (simp add: x_def)
  have "E \<le> j + 52"
  proof (cases "ilog2 x \<le> - 1022")
    case True
    with j show ?thesis by (simp add: E_def)
  next
    case False
    then have e: "E = ilog2 x" by (simp add: E_def)
    have "ilog2 x < j + 53"
    proof (rule ccontr)
      assume "\<not> ilog2 x < j + 53"
      then have "j + 53 \<le> ilog2 x" by simp
      then have "(2::rat) powi (j + 53) \<le> 2 powi (ilog2 x)" by (rule power_int_increasing) simp
      also have "\<dots> \<le> x" using ilog2_bounds [OF pos] by simp
      finally have "(2::rat) powi 53 * 2 powi j \<le> of_int m * 2 powi j"
        by (simp add: x_def pow2_split mult.commute)
      then have "(2::rat) ^ 53 \<le> of_int m" by simp
      then have "rat_of_int (2 ^ 53) \<le> of_int m" by simp
      then have "2 ^ 53 \<le> m" by (simp only: of_int_le_iff)
      with m(2) show False by simp
    qed
    with e show ?thesis by simp
  qed
  then obtain k :: nat where k: "j + 52 - E = int k"
    using nonneg_int_cases [of "j + 52 - E"] by auto
  from k have "j = (E - 52) + int k" by simp
  then have "(2::rat) powi j = 2 powi ((E - 52) + int k)" by (rule arg_cong)
  then have "(2::rat) powi j = 2 ^ k * 2 powi (E - 52)" by (simp only: pow2_shift)
  then have sc: "x = of_int (m * 2 ^ k) * quantum x"
    by (simp add: x_def quantum_def E_def)
  have "of_int (m * 2 ^ k) * quantum x / quantum x = rat_of_int (m * 2 ^ k)"
    by (rule nonzero_mult_div_cancel_right) simp
  with sc have "x / quantum x = of_int (m * 2 ^ k)" by (simp only:)
  then have "round_half_even (x / quantum x) = m * 2 ^ k" by (simp only: round_half_even_of_int)
  with pos have "round_double x = of_int (m * 2 ^ k) * quantum x"
    by (simp only: round_double_pos)
  from this sc [symmetric] have "round_double x = x" by (rule trans)
  then show ?thesis unfolding x_def .
qed

lemma round_double_exact:
  assumes "\<bar>m\<bar> < 2 ^ 53" and "- 1074 \<le> j"
  shows "round_double (of_int m * 2 powi j) = of_int m * 2 powi j"
proof -
  consider "0 < m" | "m = 0" | "m < 0" by linarith
  then show ?thesis
  proof cases
    case 1
    with assms show ?thesis by (simp add: round_double_exact_pos)
  next
    case 2
    then show ?thesis by simp
  next
    case 3
    with assms have "0 < - m" "- m < 2 ^ 53" by simp_all
    from round_double_exact_pos [OF this assms(2)] round_double_minus [of "of_int m * 2 powi j"]
    show ?thesis by simp
  qed
qed

lemma round_double_of_int:
  "\<bar>n\<bar> < 2 ^ 53 \<Longrightarrow> round_double (of_int n) = of_int n"
  using round_double_exact [of n 0] by simp

lemma round_double_half_int:
  "\<bar>n\<bar> < 2 ^ 53 \<Longrightarrow> round_double (of_int n / 2) = of_int n / 2"
  using round_double_exact [of n "- 1"] by (simp add: power_int_minus)

lemma round_double_pow2: "- 1074 \<le> j \<Longrightarrow> round_double (2 powi j) = 2 powi j"
  using round_double_exact [of 1 j] by simp


subsection \<open>Overflow by the exponent\<close>

lemma pow2_le_iff_ilog2:
  assumes "0 < y"
  shows "2 powi k \<le> y \<longleftrightarrow> k \<le> ilog2 y"
proof
  assume "2 powi k \<le> y"
  with ilog2_bounds [OF assms] have "(2::rat) powi k < 2 powi (ilog2 y + 1)" by linarith
  then have "k < ilog2 y + 1"
    by (metis less_le_not_le not_le one_le_numeral power_int_increasing)
  then show "k \<le> ilog2 y" by simp
next
  assume "k \<le> ilog2 y"
  then have "(2::rat) powi k \<le> 2 powi (ilog2 y)" by (rule power_int_increasing) simp
  with ilog2_bounds [OF assms] show "2 powi k \<le> y" by linarith
qed

text \<open>The same function, with the comparison against \<open>2^1024\<close> made on exponents.\<close>

lemma double_of_rat_code [code]:
  "double_of_rat x =
     (let y = round_double x in
      if 0 < y \<and> 1024 \<le> ilog2 y then PosInf
      else if y < 0 \<and> 1024 \<le> ilog2 (- y) then NegInf else Finite y)"
proof -
  define y where "y = round_double x"
  have p: "(2::rat) ^ 1024 = 2 powi 1024" by simp
  have a: "2 ^ 1024 \<le> y \<longleftrightarrow> 0 < y \<and> 1024 \<le> ilog2 y"
  proof (cases "0 < y")
    case True
    then show ?thesis unfolding p by (simp only: pow2_le_iff_ilog2 simp_thms)
  next
    case False
    moreover have "0 < (2::rat) ^ 1024" by simp
    ultimately show ?thesis by linarith
  qed
  have b: "y \<le> - (2 ^ 1024) \<longleftrightarrow> y < 0 \<and> 1024 \<le> ilog2 (- y)"
  proof (cases "y < 0")
    case True
    then have "0 < - y" by simp
    from pow2_le_iff_ilog2 [OF this, of 1024] True show ?thesis unfolding p by simp linarith
  next
    case False
    moreover have "0 < (2::rat) ^ 1024" by simp
    ultimately show ?thesis by linarith
  qed
  show ?thesis unfolding double_of_rat_def Let_def y_def [symmetric] a b ..
qed
subsection \<open>Finite results\<close>

lemma abs_scale: "0 \<le> c \<Longrightarrow> \<bar>a * c\<bar> = \<bar>a\<bar> * (c::rat)"
  by (simp add: abs_mult)

lemma round_double_2_1023: "round_double (2 ^ 1023) = 2 ^ 1023"
  using round_double_pow2 [of 1023] by simp

lemma double_of_rat_finite:
  assumes "\<bar>x\<bar> \<le> 2 ^ 1023"
  shows "double_of_rat x = Finite (round_double x)"
proof -
  from assms have "x \<le> 2 ^ 1023" "- (2 ^ 1023) \<le> x" by linarith+
  then have "round_double x \<le> round_double (2 ^ 1023)"
    "round_double (- (2 ^ 1023)) \<le> round_double x"
    by (simp_all only: round_double_mono)
  then have "round_double x \<le> 2 ^ 1023" "- (2 ^ 1023) \<le> round_double x"
    by (simp_all only: round_double_minus round_double_2_1023)
  moreover have "(2::rat) ^ 1023 < 2 ^ 1024" by simp
  ultimately have "\<not> 2 ^ 1024 \<le> round_double x" "\<not> round_double x \<le> - (2 ^ 1024)"
    by linarith+
  then show ?thesis by (simp only: double_of_rat_def Let_def if_False)
qed

lemma round_double_le_int:
  assumes "x \<le> rat_of_int n" and "\<bar>n\<bar> < 2 ^ 53"
  shows "round_double x \<le> of_int n"
  using round_double_mono [OF assms(1)] round_double_of_int [OF assms(2)] by simp

lemma round_double_ge_int:
  assumes "rat_of_int n \<le> x" and "\<bar>n\<bar> < 2 ^ 53"
  shows "of_int n \<le> round_double x"
  using round_double_mono [OF assms(1)] round_double_of_int [OF assms(2)] by simp

lemma round_double_le_pow2:
  assumes "x \<le> 2 ^ k"
  shows "round_double x \<le> 2 ^ k"
  using round_double_mono [OF assms] round_double_pow2 [of "int k"] by simp

lemma round_double_ge_pow2:
  assumes "2 ^ k \<le> x"
  shows "2 ^ k \<le> round_double x"
  using round_double_mono [OF assms] round_double_pow2 [of "int k"] by simp

lemma float_of_int_small:
  assumes "0 \<le> n" and "n < 2 ^ 70"
  shows "float_of_int n = Some (Finite (round_double (of_int n)))"
proof -
  from assms(2) have "rat_of_int n \<le> rat_of_int (2 ^ 70)" by (simp only: of_int_le_iff)
  then have "rat_of_int n \<le> 2 ^ 70" by simp
  also have "(2::rat) ^ 70 \<le> 2 ^ 1023" by (rule power_increasing) simp_all
  finally have "\<bar>rat_of_int n\<bar> \<le> 2 ^ 1023" using assms(1) by simp
  then show ?thesis by (simp add: float_of_int_def double_of_rat_finite)
qed

subsection \<open>From a share to a percentage\<close>

lemma percent_double_mono: "x \<le> y \<Longrightarrow> percent_double x \<le> percent_double y"
  unfolding percent_double_def
  by (intro round_double_mono mult_right_mono) simp_all

lemma percent_double_nonneg: "0 \<le> x \<Longrightarrow> 0 \<le> percent_double x"
  unfolding percent_double_def
  by (intro round_double_nonneg mult_nonneg_nonneg) simp_all

lemma percent_double_le_100:
  assumes "x \<le> 1"
  shows "percent_double x \<le> 100"
proof -
  from assms have "x \<le> rat_of_int 1" by simp
  then have "round_double x \<le> rat_of_int 1" by (rule round_double_le_int) simp
  then have "round_double x * 100 \<le> rat_of_int 100" by simp
  then have "round_double (round_double x * 100) \<le> rat_of_int 100"
    by (rule round_double_le_int) simp
  then show ?thesis by (simp add: percent_double_def)
qed

text \<open>Two roundings move a share of at least \<open>2^-30\<close> by less than \<open>10^-9\<close> per cent.\<close>

lemma percent_double_error:
  assumes lo: "1 / 2 ^ 30 \<le> x" and hi: "x \<le> 1"
  shows "\<bar>percent_double x - x * 100\<bar> \<le> 1 / 10 ^ 9"
proof -
  define q where "q = round_double x"
  define p where "p = round_double (q * 100)"
  have small: "(2::rat) powi (- 1022) \<le> 1 / 2 ^ 30"
    by (simp add: power_int_minus field_simps)
  from lo have xpos: "0 < x" by (rule less_le_trans [rotated]) simp
  have "2 powi (- 1022) \<le> \<bar>x\<bar>" using small lo xpos by linarith
  from round_double_error [OF this] xpos have eq: "\<bar>q - x\<bar> \<le> x / 2 ^ 53"
    by (simp add: q_def)
  have "(2::rat) powi (- 30) = 1 / 2 ^ 30" by (simp add: power_int_minus field_simps)
  with lo have "2 powi (- 30) \<le> x" by simp
  then have "round_double (2 powi (- 30)) \<le> q" unfolding q_def by (rule round_double_mono)
  then have qlo: "1 / 2 ^ 30 \<le> q"
    using round_double_pow2 [of "- 30"] by (simp add: power_int_minus field_simps)
  from hi have "x \<le> rat_of_int 1" by simp
  then have "q \<le> rat_of_int 1" unfolding q_def by (rule round_double_le_int) simp
  then have qhi: "q \<le> 1" by simp
  from qlo have qpos: "0 < q" by (rule less_le_trans [rotated]) simp
  have "2 powi (- 1022) \<le> \<bar>q * 100\<bar>" using small qlo qpos by simp
  from round_double_error [OF this] qpos have "\<bar>p - q * 100\<bar> \<le> q * 100 / 2 ^ 53"
    by (simp add: p_def)
  with qhi have ep: "\<bar>p - q * 100\<bar> \<le> 100 / 2 ^ 53" by simp
  from eq hi have eq': "\<bar>q - x\<bar> \<le> 1 / 2 ^ 53" by simp
  have "p - x * 100 = (p - q * 100) + (q - x) * 100" by (simp add: algebra_simps)
  then have "\<bar>p - x * 100\<bar> \<le> \<bar>p - q * 100\<bar> + \<bar>(q - x) * 100\<bar>"
    by (simp only: abs_triangle_ineq)
  moreover have "\<bar>(q - x) * 100\<bar> = \<bar>q - x\<bar> * 100" by (rule abs_scale) simp
  ultimately have "\<bar>p - x * 100\<bar> \<le> \<bar>p - q * 100\<bar> + \<bar>q - x\<bar> * 100" by simp
  with ep eq' have "\<bar>p - x * 100\<bar> \<le> 200 / 2 ^ 53" by simp
  also have "(200::rat) / 2 ^ 53 \<le> 1 / 10 ^ 9" by simp
  finally show ?thesis by (simp add: percent_double_def p_def q_def)
qed

subsection \<open>One decimal\<close>

lemma tenths_nonneg: "0 \<le> tenths y"
  unfolding tenths_def by (rule round_half_even_nonneg) simp

lemma tenths_mono: "0 \<le> x \<Longrightarrow> x \<le> y \<Longrightarrow> tenths x \<le> tenths y"
  unfolding tenths_def by (rule round_half_even_mono) simp

lemma tenths_le_1000: "0 \<le> y \<Longrightarrow> y \<le> 100 \<Longrightarrow> tenths y \<le> 1000"
proof -
  assume "0 \<le> y" "y \<le> 100"
  then have "\<bar>y\<bar> * 10 \<le> rat_of_int 1000" by simp
  then have "round_half_even (\<bar>y\<bar> * 10) \<le> round_half_even (rat_of_int 1000)"
    by (rule round_half_even_mono)
  then show ?thesis by (simp only: tenths_def round_half_even_of_int)
qed

text \<open>
  The exact percentages are multiples of \<open>1/40000\<close>. A float within \<open>10^-9\<close> of one
  prints as one of the nearest numbers with one decimal.
\<close>

lemma tenths_nearest:
  assumes p: "0 \<le> p" and close: "\<bar>p - rat_of_int K / 40000\<bar> \<le> 1 / 10 ^ 9"
  shows "\<bar>rat_of_int (tenths p) / 10 - rat_of_int K / 40000\<bar> \<le> 1 / 20"
proof -
  define n where "n = tenths p"
  have a: "\<bar>rat_of_int n - p * 10\<bar> \<le> 1 / 2"
    using round_half_even_error [of "\<bar>p\<bar> * 10"] p by (simp add: n_def tenths_def)
  have "p * 10 - rat_of_int K / 4000 = (p - rat_of_int K / 40000) * 10" by simp
  then have "\<bar>p * 10 - rat_of_int K / 4000\<bar> = \<bar>(p - rat_of_int K / 40000) * 10\<bar>"
    by (simp only:)
  also have "\<dots> = \<bar>p - rat_of_int K / 40000\<bar> * 10" by (rule abs_scale) simp
  finally have "\<bar>p * 10 - rat_of_int K / 4000\<bar> = \<bar>p - rat_of_int K / 40000\<bar> * 10" .
  with close have b: "\<bar>p * 10 - rat_of_int K / 4000\<bar> \<le> 1 / 10 ^ 8" by simp
  from a b have "\<bar>rat_of_int n - rat_of_int K / 4000\<bar> \<le> 1 / 2 + 1 / 10 ^ 8" by linarith
  then have "\<bar>rat_of_int n * 4000 - rat_of_int K\<bar> \<le> 2000 + 4000 / 10 ^ 8"
    by (simp add: field_simps abs_le_iff)
  then have "\<bar>rat_of_int (n * 4000 - K)\<bar> < rat_of_int 2001" by simp
  then have "\<bar>n * 4000 - K\<bar> < 2001" by (simp only: of_int_abs [symmetric] of_int_less_iff)
  then have "\<bar>n * 4000 - K\<bar> \<le> 2000" by simp
  then have "rat_of_int \<bar>n * 4000 - K\<bar> \<le> rat_of_int 2000" by (simp only: of_int_le_iff)
  then have "\<bar>rat_of_int n * 4000 - rat_of_int K\<bar> \<le> 2000" by simp
  then show ?thesis by (simp add: n_def field_simps abs_le_iff)
qed

subsection \<open>The two branches of the service-life estimator\<close>

lemma search_2_not_1:
  "search_digit_end (CHR ''2'') hid \<Longrightarrow> \<not> search_digit_end (CHR ''1'') hid"
  using ends_char_digit_unique [of "CHR ''2''" hid "CHR ''1''"]
  by (auto simp: search_digit_end_eq)

lemma usage_ok_sums:
  assumes "usage_ok row"
  shows "0 \<le> used_main row" "0 \<le> pulse_sum row" "pulse_sum row < 2 ^ 70"
    "0 \<le> activation_sum row" "activation_sum row < 2 ^ 70"
  using assms
  by (simp_all add: usage_ok_def counter_ok_def used_main_def pulse_sum_def activation_sum_def)

lemma share_finite:
  assumes "0 \<le> x" and "x \<le> 1"
  shows "double_of_rat x = Finite (round_double x)"
    and "double_of_rat (round_double x * 100) = Finite (percent_double x)"
proof -
  have big: "(1::rat) \<le> 2 ^ 1023" "(100::rat) \<le> 2 ^ 1023" by simp_all
  from assms big(1) have "\<bar>x\<bar> \<le> 2 ^ 1023" by linarith
  then show "double_of_rat x = Finite (round_double x)" by (rule double_of_rat_finite)
  from assms(2) have "x \<le> rat_of_int 1" by simp
  then have "round_double x \<le> rat_of_int 1" by (rule round_double_le_int) simp
  moreover from assms(1) have "0 \<le> round_double x" by (rule round_double_nonneg)
  ultimately have "\<bar>round_double x * 100\<bar> \<le> 100" by simp
  with big(2) have "\<bar>round_double x * 100\<bar> \<le> 2 ^ 1023" by linarith
  then show "double_of_rat (round_double x * 100) = Finite (percent_double x)"
    unfolding percent_double_def by (rule double_of_rat_finite)
qed

lemma vida_main:
  assumes ok: "usage_ok row" and m: "search_digit_end (CHR ''1'') hid"
  shows "vida_util_value row hid =
     (if 4000000 \<le> used_main row then Zero
      else Percent (Finite (percent_double (of_int (4000000 - used_main row) / 4000000))))"
proof -
  have eq: "pulso row * 20 + rafaga row * 1 + (activacion row + modulacion row) = used_main row"
    by (simp add: used_main_def)
  have v: "vida_util_value row hid =
     (if 4000000 - used_main row \<le> 0 then Zero
      else (case int_true_div (4000000 - used_main row) 4000000 of
              None \<Rightarrow> Error
            | Some q \<Rightarrow> Percent (fmul q (Finite 100))))"
    unfolding vida_util_value_def Let_def eq using m by (simp only: if_True)
  show ?thesis
  proof (cases "4000000 \<le> used_main row")
    case True
    then show ?thesis by (simp add: v)
  next
    case False
    let ?x = "rat_of_int (4000000 - used_main row) / 4000000"
    from False usage_ok_sums(1) [OF ok] have x: "0 \<le> ?x" "?x \<le> 1" by simp_all
    have "int_true_div (4000000 - used_main row) 4000000 = Some (Finite (round_double ?x))"
      unfolding int_true_div_def using share_finite(1) [OF x] by simp
    moreover have "fmul (Finite (round_double ?x)) (Finite 100) = Finite (percent_double ?x)"
      by (simp only: fmul.simps share_finite(2) [OF x])
    ultimately show ?thesis using False by (simp add: v)
  qed
qed

lemma remaining_secondary_le:
  assumes "0 \<le> p" and "0 \<le> a"
  shows "remaining_secondary p a \<le> 2000000"
proof -
  from assms have "0 \<le> round_double (rat_of_int p)" "0 \<le> round_double (rat_of_int a) * (1 / 2)"
    by (simp_all add: round_double_nonneg)
  then have "0 \<le> round_double (rat_of_int p) + round_double (round_double (rat_of_int a) * (1 / 2))"
    by (simp add: round_double_nonneg)
  then have "0 \<le> round_double (round_double (rat_of_int p)
      + round_double (round_double (rat_of_int a) * (1 / 2)))"
    by (rule round_double_nonneg)
  then have "2000000 - round_double (round_double (rat_of_int p)
      + round_double (round_double (rat_of_int a) * (1 / 2))) \<le> rat_of_int 2000000"
    by simp
  then have "remaining_secondary p a \<le> rat_of_int 2000000"
    unfolding remaining_secondary_def by (rule round_double_le_int) simp
  then show ?thesis by simp
qed

lemma vida_secondary:
  assumes ok: "usage_ok row" and s: "search_digit_end (CHR ''2'') hid"
  shows "vida_util_value row hid =
     (if remaining_secondary (pulse_sum row) (activation_sum row) \<le> 0 then Zero
      else Percent (Finite (percent_double
             (remaining_secondary (pulse_sum row) (activation_sum row) / 2000000))))"
proof -
  define p where "p = pulse_sum row"
  define a where "a = activation_sum row"
  define fp where "fp = round_double (rat_of_int p)"
  define fa where "fa = round_double (rat_of_int a)"
  define h where "h = round_double (fa * (1 / 2))"
  define u where "u = round_double (fp + h)"
  define r where "r = remaining_secondary p a"
  note sums = usage_ok_sums [OF ok, folded p_def a_def]
  have r_def': "r = round_double (2000000 - u)"
    by (simp add: r_def remaining_secondary_def u_def h_def fa_def fp_def)
  have big: "(2::rat) ^ 70 \<le> 2 ^ 1023" "(2::rat) ^ 71 \<le> 2 ^ 1023" "(2::rat) ^ 72 \<le> 2 ^ 1023"
    by (rule power_increasing; simp)+
  have ofp: "rat_of_int p \<le> 2 ^ 70" "rat_of_int a \<le> 2 ^ 70"
  proof -
    from sums(3) have "rat_of_int p \<le> rat_of_int (2 ^ 70)" by (simp only: of_int_le_iff)
    then show "rat_of_int p \<le> 2 ^ 70" by simp
    from sums(5) have "rat_of_int a \<le> rat_of_int (2 ^ 70)" by (simp only: of_int_le_iff)
    then show "rat_of_int a \<le> 2 ^ 70" by simp
  qed
  have fp: "0 \<le> fp" "fp \<le> 2 ^ 70"
  proof -
    from sums(2) show "0 \<le> fp" by (simp add: fp_def round_double_nonneg)
    from ofp(1) show "fp \<le> 2 ^ 70" unfolding fp_def by (rule round_double_le_pow2)
  qed
  have fa: "0 \<le> fa" "fa \<le> 2 ^ 70"
  proof -
    from sums(4) show "0 \<le> fa" by (simp add: fa_def round_double_nonneg)
    from ofp(2) show "fa \<le> 2 ^ 70" unfolding fa_def by (rule round_double_le_pow2)
  qed
  from fa have half: "0 \<le> fa * (1 / 2)" "fa * (1 / 2) \<le> 2 ^ 70" by simp_all
  have h: "0 \<le> h" "h \<le> 2 ^ 70"
  proof -
    from half(1) show "0 \<le> h" unfolding h_def by (rule round_double_nonneg)
    from half(2) show "h \<le> 2 ^ 70" unfolding h_def by (rule round_double_le_pow2)
  qed
  from fp h have sum: "0 \<le> fp + h" "fp + h \<le> 2 ^ 71" by simp_all
  have u: "0 \<le> u" "u \<le> 2 ^ 71"
  proof -
    from sum(1) show "0 \<le> u" unfolding u_def by (rule round_double_nonneg)
    from sum(2) show "u \<le> 2 ^ 71" unfolding u_def by (rule round_double_le_pow2)
  qed
  have c1: "float_of_int p = Some (Finite fp)" "float_of_int a = Some (Finite fa)"
    using sums by (simp_all add: float_of_int_small fp_def fa_def)
  have c2: "fmul (Finite fa) (Finite (1 / 2)) = Finite h"
  proof -
    from half big(1) have "\<bar>fa * (1 / 2)\<bar> \<le> 2 ^ 1023" by linarith
    then show ?thesis by (simp only: fmul.simps h_def double_of_rat_finite)
  qed
  have c3: "fadd (Finite fp) (Finite h) = Finite u"
  proof -
    from sum big(2) have "\<bar>fp + h\<bar> \<le> 2 ^ 1023" by linarith
    then show ?thesis by (simp only: fadd.simps u_def double_of_rat_finite)
  qed
  have c4: "fsub (Finite 2000000) (Finite u) = Finite r"
  proof -
    from u have "\<bar>2000000 + - u\<bar> \<le> 2 ^ 72" by simp
    with big(3) have "\<bar>2000000 + - u\<bar> \<le> 2 ^ 1023" by linarith
    then have "double_of_rat (2000000 + - u) = Finite (round_double (2000000 + - u))"
      by (rule double_of_rat_finite)
    then show ?thesis by (simp add: fsub_def r_def')
  qed
  have rle: "r \<le> 2000000" unfolding r_def using sums(2,4) by (rule remaining_secondary_le)
  have c5: "fmul (fdiv (Finite r) (Finite 2000000)) (Finite 100)
      = Finite (percent_double (r / 2000000))" if "\<not> r \<le> 0"
  proof -
    from that rle have x: "0 \<le> r / 2000000" "r / 2000000 \<le> 1" by simp_all
    show ?thesis by (simp add: share_finite [OF x])
  qed
  have eq1: "pulso row * 10 + rafaga row * 1 = p" by (simp add: p_def pulse_sum_def)
  have eq2: "activacion row + modulacion row = a" by (simp add: a_def activation_sum_def)
  have "vida_util_value row hid =
     (if fle_zero (Finite r) then Zero
      else Percent (fmul (fdiv (Finite r) (Finite 2000000)) (Finite 100)))"
    unfolding vida_util_value_def eq1 eq2 c1 prod.case option.case Let_def c2 c3 c4
    using s search_2_not_1 [OF s] by (simp only: if_True if_False)
  then show ?thesis using c5 by (simp add: r_def p_def a_def)
qed

lemma remaining_secondary_exact:
  assumes "0 \<le> p" and "0 \<le> a" and "2 * p + a < 4000000"
  shows "remaining_secondary p a = rat_of_int (4000000 - 2 * p - a) / 2"
proof -
  from assms have b: "\<bar>p\<bar> < 2 ^ 53" "\<bar>a\<bar> < 2 ^ 53" "\<bar>2 * p + a\<bar> < 2 ^ 53"
    "\<bar>4000000 - 2 * p - a\<bar> < 2 ^ 53" by simp_all
  have 1: "round_double (rat_of_int p) = rat_of_int p" by (rule round_double_of_int [OF b(1)])
  have 2: "round_double (rat_of_int a) = rat_of_int a" by (rule round_double_of_int [OF b(2)])
  have 3: "round_double (rat_of_int a * (1 / 2)) = rat_of_int a / 2"
    using round_double_half_int [OF b(2)] by simp
  have "rat_of_int p + rat_of_int a / 2 = rat_of_int (2 * p + a) / 2"
    by (simp add: field_simps)
  then have 4: "round_double (rat_of_int p + rat_of_int a / 2) = rat_of_int (2 * p + a) / 2"
    using round_double_half_int [OF b(3)] by (simp only:)
  have "2000000 - rat_of_int (2 * p + a) / 2 = rat_of_int (4000000 - 2 * p - a) / 2"
    by (simp add: field_simps)
  then have 5: "round_double (2000000 - rat_of_int (2 * p + a) / 2)
      = rat_of_int (4000000 - 2 * p - a) / 2"
    using round_double_half_int [OF b(4)] by (simp only:)
  show ?thesis by (simp only: remaining_secondary_def 1 2 3 4 5)
qed

lemma remaining_secondary_nonpos:
  assumes p: "0 \<le> p" and a: "0 \<le> a" and full: "4000000 \<le> 2 * p + a"
  shows "remaining_secondary p a \<le> 0"
proof -
  define fp where "fp = round_double (rat_of_int p)"
  define h where "h = round_double (round_double (rat_of_int a) * (1 / 2))"
  from p have fp0: "0 \<le> fp" by (simp add: fp_def round_double_nonneg)
  from a have h0: "0 \<le> h" by (simp add: h_def round_double_nonneg)
  have "rat_of_int 2000000 \<le> fp + h"
  proof -
    consider "p < 2 ^ 53" "a < 2 ^ 53" | "2 ^ 53 \<le> p" | "2 ^ 53 \<le> a" by linarith
    then show ?thesis
    proof cases
      case 1
      with p a have b: "\<bar>p\<bar> < 2 ^ 53" "\<bar>a\<bar> < 2 ^ 53" by simp_all
      have "fp = rat_of_int p" unfolding fp_def by (rule round_double_of_int [OF b(1)])
      moreover have "h = rat_of_int a / 2"
        using round_double_half_int [OF b(2)] by (simp add: h_def round_double_of_int [OF b(2)])
      moreover from full have "rat_of_int 4000000 \<le> rat_of_int (2 * p + a)"
        by (simp only: of_int_le_iff)
      ultimately show ?thesis by simp
    next
      case 2
      then have "rat_of_int (2 ^ 53) \<le> rat_of_int p" by (simp only: of_int_le_iff)
      then have "2 ^ 53 \<le> rat_of_int p" by simp
      then have "2 ^ 53 \<le> fp" unfolding fp_def by (rule round_double_ge_pow2)
      with h0 show ?thesis by simp
    next
      case 3
      then have "rat_of_int (2 ^ 53) \<le> rat_of_int a" by (simp only: of_int_le_iff)
      then have "2 ^ 53 \<le> rat_of_int a" by simp
      then have "2 ^ 53 \<le> round_double (rat_of_int a)" by (rule round_double_ge_pow2)
      then have "2 ^ 52 \<le> round_double (rat_of_int a) * (1 / 2)" by simp
      then have "2 ^ 52 \<le> h" unfolding h_def by (rule round_double_ge_pow2)
      with fp0 show ?thesis by simp
    qed
  qed
  then have "rat_of_int 2000000 \<le> round_double (fp + h)" by (rule round_double_ge_int) simp
  then have "2000000 - round_double (fp + h) \<le> 0" by simp
  then have "round_double (2000000 - round_double (fp + h)) \<le> 0" by (rule round_double_nonpos)
  then show ?thesis by (simp only: remaining_secondary_def fp_def h_def)
qed

lemma remaining_secondary_mono:
  assumes "p \<le> p'" and "a \<le> a'"
  shows "remaining_secondary p' a' \<le> remaining_secondary p a"
  unfolding remaining_secondary_def using assms
  by (intro round_double_mono diff_left_mono add_mono mult_right_mono) simp_all

lemma consumed_main_used: "consumed_main row = rat_of_int (used_main row)"
  by (simp add: consumed_main_def used_main_def)

lemma consumed_secondary_sums:
  "consumed_secondary row = rat_of_int (2 * pulse_sum row + activation_sum row) / 2"
  by (simp add: consumed_secondary_def pulse_sum_def activation_sum_def field_simps)

lemma calculate_percent:
  assumes "vida_util_value row hid = Percent (Finite y)" and "0 \<le> y"
  shows "calculate_vida_util row hid = one_decimal (nat (tenths y)) @ ''%''"
  using assms by (simp add: calculate_vida_util_def)

text \<open>A positive share that is a multiple of \<open>1/4000000\<close> is shown as one of the
  nearest percentages with one decimal.\<close>

lemma share_shown_nearest:
  assumes K: "0 < K" "K \<le> 4000000"
  shows "0 \<le> percent_double (rat_of_int K / 4000000)"
    and "\<bar>rat_of_int (tenths (percent_double (rat_of_int K / 4000000))) / 10
          - rat_of_int K / 40000\<bar> \<le> 1 / 20"
proof -
  define x where "x = rat_of_int K / 4000000"
  from K(1) have "1 \<le> K" by simp
  then have "rat_of_int 1 \<le> rat_of_int K" by (simp only: of_int_le_iff)
  then have "1 / 4000000 \<le> x" by (simp add: x_def)
  then have lo: "1 / 2 ^ 30 \<le> x" by simp
  from K(2) have "rat_of_int K \<le> rat_of_int 4000000" by (simp only: of_int_le_iff)
  then have hi: "x \<le> 1" by (simp add: x_def)
  from lo have "0 \<le> x" by simp
  then show p: "0 \<le> percent_double (rat_of_int K / 4000000)"
    unfolding x_def by (rule percent_double_nonneg)
  have "x * 100 = rat_of_int K / 40000" by (simp add: x_def)
  with percent_double_error [OF lo hi]
  have "\<bar>percent_double x - rat_of_int K / 40000\<bar> \<le> 1 / 10 ^ 9" by simp
  with p show "\<bar>rat_of_int (tenths (percent_double (rat_of_int K / 4000000))) / 10
          - rat_of_int K / 40000\<bar> \<le> 1 / 20"
    unfolding x_def by (rule tenths_nearest)
qed

subsection \<open>The service-life formula\<close>

lemma classify_main_iff:
  "classify_handpiece hid = MAIN_FUNCTION \<longleftrightarrow> search_digit_end (CHR ''1'') hid"
  using search_2_not_1 [of hid]
  by (auto simp: classify_handpiece_def MAIN_FUNCTION_def SECONDARY_FUNCTION_def UNIDENTIFIED_def)

lemma classify_secondary_iff:
  "classify_handpiece hid = SECONDARY_FUNCTION \<longleftrightarrow> search_digit_end (CHR ''2'') hid"
  by (auto simp: classify_handpiece_def MAIN_FUNCTION_def SECONDARY_FUNCTION_def UNIDENTIFIED_def)

lemma main_zero:
  assumes "usage_ok row" and "search_digit_end (CHR ''1'') hid"
    and "4000000 \<le> consumed_main row"
  shows "calculate_vida_util row hid = ''0%''"
proof -
  from assms(3) have "rat_of_int 4000000 \<le> rat_of_int (used_main row)"
    by (simp add: consumed_main_used)
  then have "4000000 \<le> used_main row" by (simp only: of_int_le_iff)
  then show ?thesis by (simp add: calculate_vida_util_def vida_main [OF assms(1,2)])
qed

lemma secondary_zero:
  assumes "usage_ok row" and "search_digit_end (CHR ''2'') hid"
    and "2000000 \<le> consumed_secondary row"
  shows "calculate_vida_util row hid = ''0%''"
proof -
  from assms(3) have "rat_of_int 4000000 \<le> rat_of_int (2 * pulse_sum row + activation_sum row)"
    by (simp add: consumed_secondary_sums)
  then have "4000000 \<le> 2 * pulse_sum row + activation_sum row" by (simp only: of_int_le_iff)
  with usage_ok_sums(2,4) [OF assms(1)]
  have "remaining_secondary (pulse_sum row) (activation_sum row) \<le> 0"
    by (rule remaining_secondary_nonpos)
  then show ?thesis by (simp add: calculate_vida_util_def vida_secondary [OF assms(1,2)])
qed

lemma main_percent:
  assumes ok: "usage_ok row" and m: "search_digit_end (CHR ''1'') hid"
    and lt: "consumed_main row < 4000000"
  shows "\<exists>n. calculate_vida_util row hid = one_decimal n @ ''%''
    \<and> \<bar>rat_of_nat n / 10 - remaining_percent 4000000 (consumed_main row)\<bar> \<le> 1 / 20"
proof -
  define K where "K = 4000000 - used_main row"
  define y where "y = percent_double (rat_of_int K / 4000000)"
  from lt have "rat_of_int (used_main row) < rat_of_int 4000000" by (simp add: consumed_main_used)
  then have u: "used_main row < 4000000" by (simp only: of_int_less_iff)
  with usage_ok_sums(1) [OF ok] have K: "0 < K" "K \<le> 4000000" by (simp_all add: K_def)
  from u have v: "vida_util_value row hid = Percent (Finite y)"
    by (simp add: vida_main [OF ok m] y_def K_def)
  note near = share_shown_nearest [OF K, folded y_def]
  from v near(1) have c: "calculate_vida_util row hid = one_decimal (nat (tenths y)) @ ''%''"
    by (rule calculate_percent)
  have a: "rat_of_nat (nat (tenths y)) = rat_of_int (tenths y)"
    using tenths_nonneg [of y] by simp
  have b: "remaining_percent 4000000 (consumed_main row) = rat_of_int K / 40000"
    by (simp add: remaining_percent_def consumed_main_used K_def)
  have "\<bar>rat_of_nat (nat (tenths y)) / 10
      - remaining_percent 4000000 (consumed_main row)\<bar> \<le> 1 / 20"
    using near(2) by (simp only: a b)
  with c show ?thesis by blast
qed

lemma secondary_percent:
  assumes ok: "usage_ok row" and s: "search_digit_end (CHR ''2'') hid"
    and lt: "consumed_secondary row < 2000000"
  shows "\<exists>n. calculate_vida_util row hid = one_decimal n @ ''%''
    \<and> \<bar>rat_of_nat n / 10 - remaining_percent 2000000 (consumed_secondary row)\<bar> \<le> 1 / 20"
proof -
  define p where "p = pulse_sum row"
  define a where "a = activation_sum row"
  define K where "K = 4000000 - 2 * p - a"
  define y where "y = percent_double (rat_of_int K / 4000000)"
  note sums = usage_ok_sums [OF ok, folded p_def a_def]
  from lt have "rat_of_int (2 * p + a) < rat_of_int 4000000"
    by (simp add: consumed_secondary_sums p_def a_def)
  then have u: "2 * p + a < 4000000" by (simp only: of_int_less_iff)
  with sums have K: "0 < K" "K \<le> 4000000" by (simp_all add: K_def)
  from sums(2,4) u have r: "remaining_secondary p a = rat_of_int K / 2"
    unfolding K_def by (rule remaining_secondary_exact)
  from K(1) have "0 < rat_of_int K / 2" by simp
  then have pos: "\<not> remaining_secondary p a \<le> 0" by (simp only: r not_le)
  have "rat_of_int K / 2 / 2000000 = rat_of_int K / 4000000" by simp
  then have sh: "remaining_secondary p a / 2000000 = rat_of_int K / 4000000" by (simp only: r)
  have v: "vida_util_value row hid = Percent (Finite y)"
    unfolding vida_secondary [OF ok s] p_def [symmetric] a_def [symmetric] sh y_def
    using pos by (simp only: if_False)
  note near = share_shown_nearest [OF K, folded y_def]
  from v near(1) have c: "calculate_vida_util row hid = one_decimal (nat (tenths y)) @ ''%''"
    by (rule calculate_percent)
  have a: "rat_of_nat (nat (tenths y)) = rat_of_int (tenths y)"
    using tenths_nonneg [of y] by simp
  have b: "remaining_percent 2000000 (consumed_secondary row) = rat_of_int K / 40000"
    by (simp add: remaining_percent_def consumed_secondary_sums K_def p_def a_def field_simps)
  have "\<bar>rat_of_nat (nat (tenths y)) / 10
      - remaining_percent 2000000 (consumed_secondary row)\<bar> \<le> 1 / 20"
    using near(2) by (simp only: a b)
  with c show ?thesis by blast
qed

text \<open>
  C1. For a row of non-negative int64 counters and an identifier of the MAIN\_FUNCTION
  class, \<^verbatim>\<open>calculate_vida_util\<close> returns \<^verbatim>\<open>0%\<close> when
  consumed = pulso*20 + rafaga*1 + (activacion + modulacion)*1 reaches the capacity
  4,000,000, and otherwise a number with one decimal and a percent sign that is a
  nearest one-decimal number to (4,000,000 - consumed) / 4,000,000 * 100. For the
  SECONDARY\_FUNCTION class the same holds with
  consumed = pulso*10 + rafaga*1 + (activacion + modulacion)*0.5 and capacity 2,000,000.
\<close>

theorem service_life_formula:
  assumes "usage_ok row"
  shows "(classify_handpiece hid = MAIN_FUNCTION \<longrightarrow>
            (4000000 \<le> consumed_main row \<longrightarrow> calculate_vida_util row hid = ''0%'')
            \<and> (consumed_main row < 4000000 \<longrightarrow>
                 (\<exists>n. calculate_vida_util row hid = one_decimal n @ ''%''
                    \<and> \<bar>rat_of_nat n / 10 - remaining_percent 4000000 (consumed_main row)\<bar>
                        \<le> 1 / 20)))
    \<and> (classify_handpiece hid = SECONDARY_FUNCTION \<longrightarrow>
            (2000000 \<le> consumed_secondary row \<longrightarrow> calculate_vida_util row hid = ''0%'')
            \<and> (consumed_secondary row < 2000000 \<longrightarrow>
                 (\<exists>n. calculate_vida_util row hid = one_decimal n @ ''%''
                    \<and> \<bar>rat_of_nat n / 10 - remaining_percent 2000000 (consumed_secondary row)\<bar>
                        \<le> 1 / 20)))"
  using main_zero [OF assms] main_percent [OF assms]
    secondary_zero [OF assms] secondary_percent [OF assms]
  unfolding classify_main_iff classify_secondary_iff by blast

theorem service_life_formula_witness:
  "usage_ok \<lparr>pulso = 100, rafaga = 0, activacion = 0, modulacion = 0\<rparr>
   \<and> classify_handpiece ''D1-0019'' = MAIN_FUNCTION
   \<and> consumed_main \<lparr>pulso = 100, rafaga = 0, activacion = 0, modulacion = 0\<rparr> < 4000000
   \<and> (\<exists>n. calculate_vida_util \<lparr>pulso = 100, rafaga = 0, activacion = 0, modulacion = 0\<rparr> ''D1-0019''
             = one_decimal n @ ''%''
        \<and> \<bar>rat_of_nat n / 10
            - remaining_percent 4000000
                (consumed_main \<lparr>pulso = 100, rafaga = 0, activacion = 0, modulacion = 0\<rparr>)\<bar>
            \<le> 1 / 20)
   \<and> usage_ok \<lparr>pulso = 200000, rafaga = 0, activacion = 0, modulacion = 0\<rparr>
   \<and> classify_handpiece ''D1-0029'' = SECONDARY_FUNCTION
   \<and> 2000000 \<le> consumed_secondary \<lparr>pulso = 200000, rafaga = 0, activacion = 0, modulacion = 0\<rparr>
   \<and> calculate_vida_util \<lparr>pulso = 200000, rafaga = 0, activacion = 0, modulacion = 0\<rparr> ''D1-0029''
       = ''0%''"
proof -
  let ?a = "\<lparr>pulso = 100, rafaga = 0, activacion = 0, modulacion = 0\<rparr>"
  let ?b = "\<lparr>pulso = 200000, rafaga = 0, activacion = 0, modulacion = 0\<rparr>"
  have oka: "usage_ok ?a" by (simp add: usage_ok_def counter_ok_def)
  have okb: "usage_ok ?b" by (simp add: usage_ok_def counter_ok_def)
  have ca: "classify_handpiece ''D1-0019'' = MAIN_FUNCTION"
    unfolding classify_main_iff by (simp add: is_digit_def)
  have cb: "classify_handpiece ''D1-0029'' = SECONDARY_FUNCTION"
    unfolding classify_secondary_iff by (simp add: is_digit_def)
  have la: "consumed_main ?a < 4000000" by (simp add: consumed_main_def)
  have lb: "2000000 \<le> consumed_secondary ?b" by (simp add: consumed_secondary_def)
  from service_life_formula [OF oka, of "''D1-0019''"] ca la
  have a: "\<exists>n. calculate_vida_util ?a ''D1-0019'' = one_decimal n @ ''%''
        \<and> \<bar>rat_of_nat n / 10 - remaining_percent 4000000 (consumed_main ?a)\<bar> \<le> 1 / 20"
    by blast
  from service_life_formula [OF okb, of "''D1-0029''"] cb lb
  have b: "calculate_vida_util ?b ''D1-0029'' = ''0%''" by blast
  from oka ca la a okb cb lb b show ?thesis by blast
qed

subsection \<open>Monotonicity and bounds\<close>

lemma sgn_tenths: "0 \<le> y \<Longrightarrow> sgn y * rat_of_int (tenths y) = rat_of_int (tenths y)"
  by (cases "y = 0") (simp_all add: tenths_def)

lemma shown_main:
  assumes ok: "usage_ok row" and m: "search_digit_end (CHR ''1'') hid"
  shows "shown_percent (vida_util_value row hid)
    = Some (share_shown (rat_of_int (4000000 - used_main row) / 4000000))"
proof (cases "4000000 \<le> used_main row")
  case True
  then show ?thesis by (simp add: vida_main [OF ok m] share_shown_def)
next
  case False
  let ?x = "rat_of_int (4000000 - used_main row) / 4000000"
  from False have x: "0 < ?x" by simp
  then have "0 \<le> percent_double ?x" by (simp add: percent_double_nonneg)
  with False x show ?thesis
    by (simp add: vida_main [OF ok m] share_shown_def sgn_tenths)
qed

lemma shown_secondary:
  assumes ok: "usage_ok row" and s: "search_digit_end (CHR ''2'') hid"
  shows "shown_percent (vida_util_value row hid)
    = Some (share_shown (remaining_secondary (pulse_sum row) (activation_sum row) / 2000000))"
proof (cases "remaining_secondary (pulse_sum row) (activation_sum row) \<le> 0")
  case True
  then show ?thesis by (simp add: vida_secondary [OF ok s] share_shown_def)
next
  case False
  let ?x = "remaining_secondary (pulse_sum row) (activation_sum row) / 2000000"
  from False have x: "0 < ?x" by simp
  then have "0 \<le> percent_double ?x" by (simp add: percent_double_nonneg)
  with False x show ?thesis
    by (simp add: vida_secondary [OF ok s] share_shown_def sgn_tenths)
qed

lemma share_shown_nonneg: "0 \<le> share_shown x"
  using tenths_nonneg [of "percent_double x"] by (simp add: share_shown_def)

lemma share_shown_mono:
  assumes "x \<le> y"
  shows "share_shown x \<le> share_shown y"
proof (cases "x \<le> 0")
  case True
  then show ?thesis using share_shown_nonneg [of y] by (simp add: share_shown_def)
next
  case False
  with assms have xy: "0 < x" "0 < y" by simp_all
  from xy(1) have "0 \<le> percent_double x" by (simp add: percent_double_nonneg)
  moreover from assms have "percent_double x \<le> percent_double y" by (rule percent_double_mono)
  ultimately have "tenths (percent_double x) \<le> tenths (percent_double y)" by (rule tenths_mono)
  then have "rat_of_int (tenths (percent_double x)) \<le> rat_of_int (tenths (percent_double y))"
    by (simp only: of_int_le_iff)
  with xy show ?thesis by (simp add: share_shown_def)
qed

lemma share_shown_le_100:
  assumes "x \<le> 1"
  shows "share_shown x \<le> 100"
proof (cases "x \<le> 0")
  case True
  then show ?thesis by (simp add: share_shown_def)
next
  case False
  then have "0 \<le> percent_double x" by (simp add: percent_double_nonneg)
  moreover from assms have "percent_double x \<le> 100" by (rule percent_double_le_100)
  ultimately have "tenths (percent_double x) \<le> 1000" by (rule tenths_le_1000)
  then have "rat_of_int (tenths (percent_double x)) \<le> rat_of_int 1000"
    by (simp only: of_int_le_iff)
  with False show ?thesis by (simp add: share_shown_def)
qed

text \<open>
  C9. For an identifier of one of the two classes and rows of non-negative int64
  counters, the number shown by \<^verbatim>\<open>calculate_vida_util\<close> does not increase when
  any of the four counters increases; it is never negative and never above 100.
  When the weighted consumption reaches the capacity the result is the string
  \<^verbatim>\<open>0%\<close>.
\<close>

theorem remaining_life_monotone_and_bounded:
  assumes ok: "usage_ok row" and ok': "usage_ok row'"
    and le: "pulso row \<le> pulso row'" "rafaga row \<le> rafaga row'"
      "activacion row \<le> activacion row'" "modulacion row \<le> modulacion row'"
    and cls: "classify_handpiece hid = MAIN_FUNCTION \<or> classify_handpiece hid = SECONDARY_FUNCTION"
  shows "(\<exists>v v'. shown_percent (vida_util_value row hid) = Some v
            \<and> shown_percent (vida_util_value row' hid) = Some v'
            \<and> v' \<le> v \<and> 0 \<le> v' \<and> v \<le> 100)
    \<and> (classify_handpiece hid = MAIN_FUNCTION \<and> 4000000 \<le> consumed_main row
          \<longrightarrow> calculate_vida_util row hid = ''0%'')
    \<and> (classify_handpiece hid = SECONDARY_FUNCTION \<and> 2000000 \<le> consumed_secondary row
          \<longrightarrow> calculate_vida_util row hid = ''0%'')"
proof -
  have zero: "(classify_handpiece hid = MAIN_FUNCTION \<and> 4000000 \<le> consumed_main row
          \<longrightarrow> calculate_vida_util row hid = ''0%'')
    \<and> (classify_handpiece hid = SECONDARY_FUNCTION \<and> 2000000 \<le> consumed_secondary row
          \<longrightarrow> calculate_vida_util row hid = ''0%'')"
    using main_zero [OF ok] secondary_zero [OF ok]
    unfolding classify_main_iff classify_secondary_iff by blast
  from cls consider "search_digit_end (CHR ''1'') hid" | "search_digit_end (CHR ''2'') hid"
    unfolding classify_main_iff classify_secondary_iff by blast
  then have "\<exists>v v'. shown_percent (vida_util_value row hid) = Some v
            \<and> shown_percent (vida_util_value row' hid) = Some v'
            \<and> v' \<le> v \<and> 0 \<le> v' \<and> v \<le> 100"
  proof cases
    case 1
    let ?x = "rat_of_int (4000000 - used_main row) / 4000000"
    let ?x' = "rat_of_int (4000000 - used_main row') / 4000000"
    from le have "used_main row \<le> used_main row'" by (simp add: used_main_def)
    then have "rat_of_int (4000000 - used_main row') \<le> rat_of_int (4000000 - used_main row)"
      by simp
    then have xx: "?x' \<le> ?x" by (simp add: divide_right_mono)
    from usage_ok_sums(1) [OF ok] have "rat_of_int (4000000 - used_main row) \<le> rat_of_int 4000000"
      by simp
    then have x1: "?x \<le> 1" by simp
    from xx have "share_shown ?x' \<le> share_shown ?x" by (rule share_shown_mono)
    moreover have "0 \<le> share_shown ?x'" by (rule share_shown_nonneg)
    moreover from x1 have "share_shown ?x \<le> 100" by (rule share_shown_le_100)
    ultimately show ?thesis using shown_main [OF ok 1] shown_main [OF ok' 1] by blast
  next
    case 2
    let ?r = "remaining_secondary (pulse_sum row) (activation_sum row)"
    let ?r' = "remaining_secondary (pulse_sum row') (activation_sum row')"
    from le have "pulse_sum row \<le> pulse_sum row'" "activation_sum row \<le> activation_sum row'"
      by (simp_all add: pulse_sum_def activation_sum_def)
    then have "?r' \<le> ?r" by (rule remaining_secondary_mono)
    then have xx: "?r' / 2000000 \<le> ?r / 2000000" by (simp add: divide_right_mono)
    from usage_ok_sums(2,4) [OF ok] have "?r \<le> 2000000" by (rule remaining_secondary_le)
    then have x1: "?r / 2000000 \<le> 1" by simp
    from xx have "share_shown (?r' / 2000000) \<le> share_shown (?r / 2000000)"
      by (rule share_shown_mono)
    moreover have "0 \<le> share_shown (?r' / 2000000)" by (rule share_shown_nonneg)
    moreover from x1 have "share_shown (?r / 2000000) \<le> 100" by (rule share_shown_le_100)
    ultimately show ?thesis using shown_secondary [OF ok 2] shown_secondary [OF ok' 2] by blast
  qed
  with zero show ?thesis by blast
qed

theorem remaining_life_monotone_and_bounded_witness:
  "usage_ok \<lparr>pulso = 100, rafaga = 5, activacion = 7, modulacion = 0\<rparr>
   \<and> usage_ok \<lparr>pulso = 200, rafaga = 5, activacion = 9, modulacion = 1\<rparr>
   \<and> classify_handpiece ''D1-0029'' = SECONDARY_FUNCTION
   \<and> (\<exists>v v'. shown_percent (vida_util_value
                  \<lparr>pulso = 100, rafaga = 5, activacion = 7, modulacion = 0\<rparr> ''D1-0029'') = Some v
        \<and> shown_percent (vida_util_value
                  \<lparr>pulso = 200, rafaga = 5, activacion = 9, modulacion = 1\<rparr> ''D1-0029'') = Some v'
        \<and> v' \<le> v \<and> 0 \<le> v' \<and> v \<le> 100)
   \<and> usage_ok \<lparr>pulso = 200000, rafaga = 0, activacion = 0, modulacion = 0\<rparr>
   \<and> classify_handpiece ''D1-0019'' = MAIN_FUNCTION
   \<and> 4000000 \<le> consumed_main \<lparr>pulso = 200000, rafaga = 0, activacion = 0, modulacion = 0\<rparr>
   \<and> calculate_vida_util \<lparr>pulso = 200000, rafaga = 0, activacion = 0, modulacion = 0\<rparr> ''D1-0019''
       = ''0%''"
proof -
  let ?a = "\<lparr>pulso = 100, rafaga = 5, activacion = 7, modulacion = 0\<rparr>"
  let ?b = "\<lparr>pulso = 200, rafaga = 5, activacion = 9, modulacion = 1\<rparr>"
  let ?c = "\<lparr>pulso = 200000, rafaga = 0, activacion = 0, modulacion = 0\<rparr>"
  have oka: "usage_ok ?a" by (simp add: usage_ok_def counter_ok_def)
  have okb: "usage_ok ?b" by (simp add: usage_ok_def counter_ok_def)
  have okc: "usage_ok ?c" by (simp add: usage_ok_def counter_ok_def)
  have c2: "classify_handpiece ''D1-0029'' = SECONDARY_FUNCTION"
    unfolding classify_secondary_iff by (simp add: is_digit_def)
  have c1: "classify_handpiece ''D1-0019'' = MAIN_FUNCTION"
    unfolding classify_main_iff by (simp add: is_digit_def)
  have full: "4000000 \<le> consumed_main ?c" by (simp add: consumed_main_def)
  have ab: "\<exists>v v'. shown_percent (vida_util_value ?a ''D1-0029'') = Some v
        \<and> shown_percent (vida_util_value ?b ''D1-0029'') = Some v'
        \<and> v' \<le> v \<and> 0 \<le> v' \<and> v \<le> 100"
    using remaining_life_monotone_and_bounded [OF oka okb, of "''D1-0029''"] c2 by simp
  have z: "calculate_vida_util ?c ''D1-0019'' = ''0%''"
    using remaining_life_monotone_and_bounded [OF okc okc, of "''D1-0019''"] c1 full by simp
  from oka okb c2 ab okc c1 full z show ?thesis by blast
qed

subsection \<open>The treatment join\<close>

lemma left_fill_defaults [simp]: "left (fill_defaults j) = left j"
  by (simp add: fill_defaults_def)

lemma left_join_unmatched [simp]: "left (join_unmatched t) = t"
  by (simp add: join_unmatched_def)

lemma left_join_matched [simp]: "left (join_matched t l) = t"
  by (simp add: join_matched_def)

lemma merge_left_Nil [simp]: "merge_left [] lk = []"
  by (simp add: merge_left_def)

lemma merge_left_Cons [simp]: "merge_left (t # ts) lk = joined_of lk t @ merge_left ts lk"
  by (simp add: merge_left_def)

lemma joined_of_left: "j \<in> set (joined_of lk t) \<Longrightarrow> left j = t"
  by (auto simp: joined_of_def split: list.splits)


lemma joined_of_unmatched:
  "j \<in> set (joined_of lk t) \<Longrightarrow> matches lk t = [] \<Longrightarrow> j = join_unmatched t"
  by (simp add: joined_of_def)


lemma merge_left_set:
  "j \<in> set (merge_left ts lk) \<longleftrightarrow> (\<exists>t \<in> set ts. j \<in> set (joined_of lk t))"
  by (induction ts) auto

lemma merge_left_left_in: "j \<in> set (merge_left ts lk) \<Longrightarrow> left j \<in> set ts"
  by (auto simp: merge_left_set dest: joined_of_left)

lemma merge_left_unmatched:
  assumes "j \<in> set (merge_left ts lk)" and "matches lk (left j) = []"
  shows "j = join_unmatched (left j)"
proof -
  from assms(1) obtain t where "t \<in> set ts" and j: "j \<in> set (joined_of lk t)"
    by (auto simp: merge_left_set)
  from j have "left j = t" by (rule joined_of_left)
  with j assms(2) show ?thesis by (auto dest: joined_of_unmatched)
qed



lemma fill_defaults_unmatched: "fill_defaults (join_unmatched t) = default_row t"
  by (simp add: fill_defaults_def join_unmatched_def default_row_def fillna_def)


lemma filled_unmatched:
  assumes "r \<in> set (map fill_defaults (merge_left ts lk))" and "matches lk (left r) = []"
  shows "r = default_row (left r)"
proof -
  from assms(1) obtain j where j: "j \<in> set (merge_left ts lk)" and r: "r = fill_defaults j"
    by auto
  from r have "left r = left j" by simp
  with assms(2) j have "j = join_unmatched (left j)" by (simp add: merge_left_unmatched)
  with r have "r = fill_defaults (join_unmatched (left j))" by simp
  then show ?thesis using \<open>left r = left j\<close> by (simp add: fill_defaults_unmatched)
qed



subsection \<open>Structure of the summaries\<close>

lemma group_agg_Nil [simp]: "group_agg key [] = []"
  by (simp add: group_agg_def group_keys_def map_filter_simps)

lemma create_summary_no_first_sequence:
  "first_sequence df = [] \<Longrightarrow> create_summary key df = []"
  by (simp add: create_summary_def)

lemma first_sequence_empty:
  "(\<forall>r \<in> set df. Secuencia r \<noteq> Some 1) \<Longrightarrow> first_sequence df = []"
  by (simp add: first_sequence_def filter_empty_conv)

lemma set_group_keys:
  "set (group_keys key df) = {k. \<exists>r \<in> set df. key r = Some k}"
  by (force simp: group_keys_def map_filter_def image_iff)

lemma distinct_group_keys: "distinct (group_keys key df)"
  by (simp add: group_keys_def)

lemma group_agg_alt: "group_agg key df = map (group_row key df) (group_keys key df)"
  by (simp add: group_agg_def group_row_def Let_def)

lemma create_summary_alt:
  "create_summary key df =
     (let resumen = sort_key (\<lambda>(k, c, p). - c) (group_agg key (first_sequence df))
      in map (summary_of (sum_list (map (\<lambda>(k, c, p). c) resumen))
                         (sum_list (map (\<lambda>(k, c, p). p) resumen))) resumen)"
  by (simp add: create_summary_def summary_of_def Let_def case_prod_unfold)

lemma create_summary_rows:
  assumes "r \<in> set (first_sequence df)" and "key r = Some k"
  shows "\<exists>s \<in> set (create_summary key df).
           label s = k
           \<and> Cantidad s = int (length (filter (\<lambda>r. key r = Some k) (first_sequence df)))"
proof -
  let ?sel = "first_sequence df"
  let ?res = "sort_key (\<lambda>(k, c, p). - c) (group_agg key ?sel)"
  from assms have "k \<in> set (group_keys key ?sel)" by (auto simp: set_group_keys)
  then have "group_row key ?sel k \<in> set (group_agg key ?sel)" by (simp add: group_agg_alt)
  then have g: "group_row key ?sel k \<in> set ?res" by simp
  let ?f = "summary_of (sum_list (map (\<lambda>(k, c, p). c) ?res)) (sum_list (map (\<lambda>(k, c, p). p) ?res))"
  from g have "?f (group_row key ?sel k) \<in> set (create_summary key df)"
    by (simp add: create_summary_alt Let_def)
  moreover have "label (?f (group_row key ?sel k)) = k"
    "Cantidad (?f (group_row key ?sel k)) = int (length (filter (\<lambda>r. key r = Some k) ?sel))"
    by (simp_all add: summary_of_def group_row_def)
  ultimately show ?thesis by blast
qed

lemma map_filter_filter_key:
  assumes "\<forall>r \<in> set xs. \<not> P r \<longrightarrow> key r = None"
  shows "List.map_filter key (filter P xs) = List.map_filter key xs"
  using assms by (induction xs) (auto simp: map_filter_simps split: option.splits)

lemma filter_key_filter:
  assumes "\<forall>r \<in> set xs. \<not> P r \<longrightarrow> key r = None"
  shows "filter (\<lambda>r. key r = Some k) (filter P xs) = filter (\<lambda>r. key r = Some k) xs"
  using assms by (induction xs) auto

lemma group_agg_filter:
  assumes "\<forall>r \<in> set xs. \<not> P r \<longrightarrow> key r = None"
  shows "group_agg key (filter P xs) = group_agg key xs"
proof -
  have k: "group_keys key (filter P xs) = group_keys key xs"
    using assms by (simp add: group_keys_def map_filter_filter_key)
  have "group_row key (filter P xs) k = group_row key xs k" for k
    unfolding group_row_def using assms by (simp only: filter_key_filter)
  then have "group_row key (filter P xs) = group_row key xs" by (rule ext)
  then show ?thesis by (simp only: group_agg_alt k)
qed

lemma first_sequence_filter: "first_sequence (filter P df) = filter P (first_sequence df)"
  by (induction df) (simp_all add: first_sequence_def)

lemma create_summary_filter:
  assumes "\<forall>r \<in> set df. \<not> P r \<longrightarrow> key r = None"
  shows "create_summary key (filter P df) = create_summary key df"
proof -
  have "\<forall>r \<in> set (first_sequence df). \<not> P r \<longrightarrow> key r = None"
    using assms by (simp add: first_sequence_def)
  then have "group_agg key (first_sequence (filter P df)) = group_agg key (first_sequence df)"
    by (simp add: first_sequence_filter group_agg_filter)
  then show ?thesis by (simp add: create_summary_def)
qed

text \<open>
  C6. When no row has sequence step 1.0 the three summaries are empty: the percentage
  columns are computed cell by cell over the groups, and with no group nothing is
  divided by the zero totals.
\<close>

theorem summaries_empty_without_first_sequence:
  assumes "\<forall>r \<in> set df. Secuencia r \<noteq> Some 1"
  shows "create_treatment_summary df = []
    \<and> create_program_summary df = []
    \<and> create_subprogram_summary df = []"
  using assms
  by (simp add: create_treatment_summary_def create_program_summary_def
      create_subprogram_summary_def first_sequence_empty create_summary_no_first_sequence)

theorem summaries_empty_without_first_sequence_witness:
  "create_treatment_summary [fill_defaults (join_matched example_second_step (example_lookup ! 1))] = []
   \<and> create_program_summary [fill_defaults (join_matched example_second_step (example_lookup ! 1))] = []
   \<and> create_subprogram_summary [fill_defaults (join_matched example_second_step (example_lookup ! 1))] = []"
proof -
  have "\<forall>r \<in> set [fill_defaults (join_matched example_second_step (example_lookup ! 1))].
          Secuencia r \<noteq> Some 1"
    by (simp add: fill_defaults_def join_matched_def example_lookup_def fillna_def)
  then show ?thesis by (rule summaries_empty_without_first_sequence)
qed

subsection \<open>Rows without a lookup match in the summaries\<close>

lemma process_treatments_rows:
  assumes "process_treatments aware ts lk d c = Some df"
  shows "set df \<subseteq> set (map fill_defaults (merge_left ts lk))"
  using assms by (auto simp: process_treatments_def Let_def split: if_splits)

lemma filled_unmatched_sub:
  assumes "r \<in> set df" and "matches lk (left r) = []"
    and "set df \<subseteq> set (map fill_defaults (merge_left ts lk))"
  shows "r = default_row (left r)"
proof -
  from assms(1,3) have "r \<in> set (map fill_defaults (merge_left ts lk))" by (rule subsetD [rotated])
  then show ?thesis using assms(2) by (rule filled_unmatched)
qed

lemma unmatched_in_group:
  assumes df: "set df \<subseteq> set (map fill_defaults (merge_left ts lk))"
    and key: "\<And>t. key (default_row t) = Some k"
  shows "length (filter (\<lambda>r. matches lk (left r) = []) df)
         \<le> length (filter (\<lambda>r. key r = Some k) (first_sequence df))"
proof -
  have u: "key r = Some k \<and> Secuencia r = Some 1"
    if "r \<in> set df" "matches lk (left r) = []" for r
  proof -
    from that df have "r = default_row (left r)" by (rule filled_unmatched_sub)
    then have 1: "key r = key (default_row (left r))"
      and 2: "Secuencia r = Secuencia (default_row (left r))"
      by simp_all
    from 1 have "key r = Some k" by (simp only: key)
    moreover from 2 have "Secuencia r = Some 1" by (simp add: default_row_def)
    ultimately show ?thesis by simp
  qed
  have "filter (\<lambda>r. key r = Some k) (first_sequence df)
        = filter (\<lambda>r. Secuencia r = Some 1 \<and> key r = Some k) df"
    by (simp add: first_sequence_def conj_commute)
  moreover have "length (filter (\<lambda>r. matches lk (left r) = []) df)
        \<le> length (filter (\<lambda>r. Secuencia r = Some 1 \<and> key r = Some k) df)"
    using u
  proof (induction df)
    case Nil
    show ?case by simp
  next
    case (Cons a df)
    then show ?case by auto
  qed
  ultimately show ?thesis by simp
qed

text \<open>
  C10. The default fill leaves \<^verbatim>\<open>Subtipo\<close> empty on a row whose code has no lookup
  match, and the grouping by \<^verbatim>\<open>Subtipo\<close> drops rows with an empty key: the program
  summary of the processed treatments is the program summary of the matched rows
  alone. When there is such a row, the type summary has the group FHOS and the
  subprogram summary the group "FHOS gen\'erico", each counting at least all the
  unmatched rows.
\<close>

theorem unmatched_rows_not_in_program_summary:
  assumes "process_treatments aware treatments_df treatments_id_df d cutoff_date = Some df"
  shows "(\<forall>r \<in> set df. matches treatments_id_df (left r) = [] \<longrightarrow>
            Subtipo r = None \<and> Tipo r = Some FHOS \<and> Subprograma r = Some FHOS_generico)
    \<and> create_program_summary df
        = create_program_summary (filter (\<lambda>r. matches treatments_id_df (left r) \<noteq> []) df)
    \<and> ((\<exists>r \<in> set df. matches treatments_id_df (left r) = []) \<longrightarrow>
         (\<exists>s \<in> set (create_treatment_summary df).
            label s = FHOS
            \<and> int (length (filter (\<lambda>r. matches treatments_id_df (left r) = []) df)) \<le> Cantidad s)
         \<and> (\<exists>s \<in> set (create_subprogram_summary df).
            label s = FHOS_generico
            \<and> int (length (filter (\<lambda>r. matches treatments_id_df (left r) = []) df)) \<le> Cantidad s))"
proof -
  let ?lk = treatments_id_df
  from assms have sub: "set df \<subseteq> set (map fill_defaults (merge_left treatments_df ?lk))"
    by (rule process_treatments_rows)
  have un: "r = default_row (left r)" if "r \<in> set df" "matches ?lk (left r) = []" for r
    using that sub by (rule filled_unmatched_sub)
  have f: "Subtipo r = None \<and> Tipo r = Some FHOS \<and> Subprograma r = Some FHOS_generico
      \<and> Secuencia r = Some 1"
    if "r \<in> set df" "matches ?lk (left r) = []" for r
  proof -
    from un [OF that] have "Subtipo r = Subtipo (default_row (left r))"
      "Tipo r = Tipo (default_row (left r))"
      "Subprograma r = Subprograma (default_row (left r))"
      "Secuencia r = Secuencia (default_row (left r))" by simp_all
    then show ?thesis by (simp add: default_row_def)
  qed
  have a: "\<forall>r \<in> set df. matches ?lk (left r) = [] \<longrightarrow>
            Subtipo r = None \<and> Tipo r = Some FHOS \<and> Subprograma r = Some FHOS_generico"
    using f by blast
  have "\<forall>r \<in> set df. \<not> matches ?lk (left r) \<noteq> [] \<longrightarrow> Subtipo r = None"
    using f by blast
  then have b: "create_program_summary df
        = create_program_summary (filter (\<lambda>r. matches ?lk (left r) \<noteq> []) df)"
    unfolding create_program_summary_def by (rule create_summary_filter [symmetric])
  have c: "(\<exists>s \<in> set (create_treatment_summary df).
            label s = FHOS
            \<and> int (length (filter (\<lambda>r. matches ?lk (left r) = []) df)) \<le> Cantidad s)
         \<and> (\<exists>s \<in> set (create_subprogram_summary df).
            label s = FHOS_generico
            \<and> int (length (filter (\<lambda>r. matches ?lk (left r) = []) df)) \<le> Cantidad s)"
    if ex: "\<exists>r \<in> set df. matches ?lk (left r) = []"
  proof -
    from ex obtain r where r: "r \<in> set df" "matches ?lk (left r) = []" by blast
    from f [OF r] r(1) have sel: "r \<in> set (first_sequence df)"
      by (simp add: first_sequence_def)
    from f [OF r] have kt: "Tipo r = Some FHOS" and ks: "Subprograma r = Some FHOS_generico"
      by simp_all
    from create_summary_rows [of r df Tipo FHOS, OF sel kt] obtain s where s: "s \<in> set (create_summary Tipo df)"
      "label s = FHOS"
      "Cantidad s = int (length (filter (\<lambda>r. Tipo r = Some FHOS) (first_sequence df)))"
      by blast
    have "length (filter (\<lambda>r. matches ?lk (left r) = []) df)
         \<le> length (filter (\<lambda>r. Tipo r = Some FHOS) (first_sequence df))"
      by (rule unmatched_in_group [OF sub]) (simp add: default_row_def)
    with s have 1: "\<exists>s \<in> set (create_treatment_summary df).
            label s = FHOS
            \<and> int (length (filter (\<lambda>r. matches ?lk (left r) = []) df)) \<le> Cantidad s"
      unfolding create_treatment_summary_def by auto
    from create_summary_rows [of r df Subprograma FHOS_generico, OF sel ks] obtain s' where s': "s' \<in> set (create_summary Subprograma df)"
      "label s' = FHOS_generico"
      "Cantidad s' = int (length (filter (\<lambda>r. Subprograma r = Some FHOS_generico) (first_sequence df)))"
      by blast
    have "length (filter (\<lambda>r. matches ?lk (left r) = []) df)
         \<le> length (filter (\<lambda>r. Subprograma r = Some FHOS_generico) (first_sequence df))"
      by (rule unmatched_in_group [OF sub]) (simp add: default_row_def)
    with s' have 2: "\<exists>s \<in> set (create_subprogram_summary df).
            label s = FHOS_generico
            \<and> int (length (filter (\<lambda>r. matches ?lk (left r) = []) df)) \<le> Cantidad s"
      unfolding create_subprogram_summary_def by auto
    from 1 2 show ?thesis by blast
  qed
  from a b c show ?thesis by blast
qed

theorem unmatched_rows_not_in_program_summary_witness:
  "process_treatments True [example_matched, example_unmatched] example_lookup ''D1''
       (localize_cutoff example_cutoff)
     = Some [fill_defaults (join_matched example_matched (example_lookup ! 0)),
             default_row example_unmatched]
   \<and> create_program_summary
        [fill_defaults (join_matched example_matched (example_lookup ! 0)),
         default_row example_unmatched]
      = create_program_summary [fill_defaults (join_matched example_matched (example_lookup ! 0))]
   \<and> (\<exists>s \<in> set (create_treatment_summary
          [fill_defaults (join_matched example_matched (example_lookup ! 0)),
           default_row example_unmatched]). label s = FHOS \<and> 1 \<le> Cantidad s)"
proof -
  let ?m = "fill_defaults (join_matched example_matched (example_lookup ! 0))"
  let ?u = "default_row example_unmatched"
  have m1: "matches example_lookup example_matched = [example_lookup ! 0]"
    by (simp add: matches_def example_lookup_def example_matched_def)
  have m2: "matches example_lookup example_unmatched = []"
    by (simp add: matches_def example_lookup_def example_unmatched_def)
  have lm: "left ?m = example_matched" and lu: "left ?u = example_unmatched"
    by (simp_all add: default_row_def)
  have merged: "map fill_defaults (merge_left [example_matched, example_unmatched] example_lookup)
      = [?m, ?u]"
    by (simp add: joined_of_def m1 m2 fill_defaults_unmatched)
  have run: "process_treatments True [example_matched, example_unmatched] example_lookup ''D1''
       (localize_cutoff example_cutoff) = Some [?m, ?u]"
    unfolding process_treatments_def merged
    by (simp add: lm lu example_cutoff_def localize_cutoff_def on_or_after_def)
      (simp add: example_matched_def example_unmatched_def min_date_def day_ns_def)
  have f: "filter (\<lambda>r. matches example_lookup (left r) \<noteq> []) [?m, ?u] = [?m]"
    by (simp add: lm lu m1 m2)
  have g: "filter (\<lambda>r. matches example_lookup (left r) = []) [?m, ?u] = [?u]"
    by (simp add: lm lu m1 m2)
  have e: "\<exists>r \<in> set [?m, ?u]. matches example_lookup (left r) = []"
    by (simp add: lu m2)
  from unmatched_rows_not_in_program_summary [OF run] e
  have "create_program_summary [?m, ?u] = create_program_summary [?m]"
    and "\<exists>s \<in> set (create_treatment_summary [?m, ?u]). label s = FHOS
           \<and> int (length [?u]) \<le> Cantidad s"
    unfolding f g by blast+
  with run show ?thesis by simp
qed

subsection \<open>The temporal filter\<close>




lemma truncate_add_status [simp]: "handpiece_row.truncate (add_status today r) = r"
  by (simp add: add_status_def handpiece_row.truncate_def handpiece_row.extend_def)

lemma fecha_uso_add_status [simp]: "fecha_uso (add_status today r) = fecha_uso r"
  by (simp add: add_status_def handpiece_row.extend_def)

lemma estado_add_status [simp]:
  "estado (add_status today r) = status_of today (fecha_uso r)"
  by (simp add: add_status_def handpiece_row.extend_def handpiece_status.fields_def)



lemma cutoff_localized [simp]:
  "cutoff_aware (localize_cutoff c)" "cutoff_instant (localize_cutoff c) = cutoff_instant c"
  by (simp_all add: localize_cutoff_def)




subsection \<open>The suggested cutoff date\<close>








subsection \<open>The end-to-end scenario\<close>

lemma normalize_pulse_300: "normalize_pulse 300 = 100"
  by code_simp

lemma main_value_of_100_pulses:
  "(case int_true_div (4000000 - (100 * 20 + 0 * 1 + (0 + 0))) 4000000 of
      None \<Rightarrow> Error
    | Some q \<Rightarrow> Percent (fmul q (Finite 100)))
   = Percent (Finite (7033355980557517 / 70368744177664))"
  by code_simp

lemma format_of_main_value:
  "format_1f (Finite (7033355980557517 / 70368744177664)) = ''100.0''"
  by code_simp

text \<open>
  C8. A raw pulse count of 300 is rescaled to 100. With the other counters 0 and a
  handpiece identifier of the MAIN\_FUNCTION class, the consumption is 2000, the exact
  remaining share is 99.95 per cent, and \<^verbatim>\<open>calculate_vida_util\<close> returns the string
  \<^verbatim>\<open>100.0%\<close>: the binary64 value of the percentage lies just above 99.95 and is
  rounded up.
\<close>

theorem pulse_300_main_shows_100:
  assumes "search_digit_end (CHR ''1'') hid"
  shows "normalize_pulse 300 = 100
    \<and> consumed_main \<lparr>pulso = normalize_pulse 300, rafaga = 0, activacion = 0, modulacion = 0\<rparr>
        = 100 * 20
    \<and> remaining_percent 4000000 (100 * 20) = 9995 / 100
    \<and> calculate_vida_util
        \<lparr>pulso = normalize_pulse 300, rafaga = 0, activacion = 0, modulacion = 0\<rparr> hid
        = ''100.0%''"
proof -
  have c: "consumed_main \<lparr>pulso = normalize_pulse 300, rafaga = 0, activacion = 0, modulacion = 0\<rparr>
        = 100 * 20"
    by (simp add: consumed_main_def normalize_pulse_300)
  have r: "remaining_percent 4000000 (100 * 20) = 9995 / 100"
    by (simp add: remaining_percent_def)
  have "vida_util_value \<lparr>pulso = 100, rafaga = 0, activacion = 0, modulacion = 0\<rparr> hid
      = Percent (Finite (7033355980557517 / 70368744177664))"
    using assms main_value_of_100_pulses by (simp add: vida_util_value_def)
  then have "calculate_vida_util \<lparr>pulso = 100, rafaga = 0, activacion = 0, modulacion = 0\<rparr> hid
      = ''100.0%''"
    by (simp only: calculate_vida_util_def render_vida.simps format_of_main_value) simp
  with c r show ?thesis by (simp only: normalize_pulse_300)
qed

theorem pulse_300_main_shows_100_witness:
  "search_digit_end (CHR ''1'') ''D1-0019''
   \<and> calculate_vida_util
        \<lparr>pulso = normalize_pulse 300, rafaga = 0, activacion = 0, modulacion = 0\<rparr> ''D1-0019''
        = ''100.0%''"
proof -
  have s: "search_digit_end (CHR ''1'') ''D1-0019''" by (simp add: is_digit_def)
  from pulse_300_main_shows_100 [OF s] s show ?thesis by blast
qed

subsection \<open>One percentage cell\<close>




subsection \<open>A percentage column\<close>





subsection \<open>The columns of a summary\<close>




subsection \<open>The percentage columns of a summary\<close>



subsection \<open>A summary with one treatment in each group\<close>












end
